theory Spec2Isabelle
  imports Main "HOL-Library.Word"
begin

unbundle bit_operations_syntax

section \<open>The Quad-SPI external flash driver (ion/src/device/external\_flash.cpp)\<close>

text \<open>
  The driver talks to the QUADSPI peripheral through its registers. The register
  header, \<^verbatim>\<open>external_flash.h\<close> and the GPIO and RCC declarations are not among the
  sources, so the enumerations below list the members the driver and its specification
  name, and the constants of the header are fields of \<open>board\<close>.
\<close>

type_synonym u8 = "8 word"
type_synonym u16 = "16 word"
type_synonym u32 = "32 word"

text \<open>\<^verbatim>\<open>size_t\<close> on the device (a 32-bit ARM core).\<close>

type_synonym size_t = "32 word"

subsection \<open>Enumerations\<close>

text \<open>
  Modelled from the spec: \<^verbatim>\<open>QUADSPI::CCR::FunctionalMode\<close>, declared in the absent register
  header. The members are those of the specification's data model, the three the driver
  uses.
\<close>

datatype FunctionalMode = IndirectWrite | IndirectRead | MemoryMapped

text \<open>
  Modelled from the spec: \<^verbatim>\<open>QUADSPI::CCR::OperatingMode\<close>, declared in the absent register
  header. The members are those of the specification's data model; the driver names
  \<open>Single\<close> and \<open>Quad\<close>.
\<close>

datatype OperatingMode = Single | Dual | Quad

text \<open>
  Modelled from the spec: \<^verbatim>\<open>Command\<close>, declared in the absent \<^verbatim>\<open>external_flash.h\<close>. The
  members are those the specification lists; the driver sends \<open>ReadStatusRegister\<close>,
  \<open>WriteEnable\<close>, \<open>ChipErase\<close>, \<open>ReadData\<close> and \<open>EnableQPI\<close>.
\<close>

datatype Command =
  ReadStatusRegister | WriteEnable | ChipErase | SectorErase | PageProgram | ReadData | EnableQPI

text \<open>
  The address sizes, GPIO modes and alternate functions of the absent headers; the driver
  names \<open>ThreeBytes\<close>, \<open>AlternateFunction\<close>, \<open>AF9\<close> and \<open>AF10\<close>.
\<close>

datatype Size = OneByte | TwoBytes | ThreeBytes | FourBytes

datatype Mode = AlternateFunction

datatype AlternateFunction = AF9 | AF10

subsection \<open>Registers\<close>

text \<open>
  A value of \<^verbatim>\<open>class QUADSPI::CCR\<close>. \<^verbatim>\<open>ccr(0)\<close> clears every field; a field of an
  enumeration that no setter has written since is \<open>None\<close>, one that \<^verbatim>\<open>setX(v)\<close> wrote
  is \<open>Some v\<close>. \<open>INSTRUCTION\<close> holds the command whose opcode
  \<^verbatim>\<open>static_cast<uint8_t>(c)\<close> is. \<open>DCYC\<close> is a field of five bits of the register
  (bits 22 to 18), so \<^verbatim>\<open>setDCYC\<close> keeps the low five bits of its argument.
\<close>

record ccr =
  FMODE :: "FunctionalMode option"
  DMODE :: "OperatingMode option"
  DCYC :: u8
  ADMODE :: "OperatingMode option"
  ADSIZE :: "Size option"
  IMODE :: "OperatingMode option"
  INSTRUCTION :: "Command option"

definition ccr_zero :: ccr where
  "ccr_zero = \<lparr>FMODE = None, DMODE = None, DCYC = 0, ADMODE = None, ADSIZE = None,
     IMODE = None, INSTRUCTION = None\<rparr>"

text \<open>One access of the driver to a register of the transaction interface.\<close>

datatype access =
  Set_DLR u32 | Set_CCR ccr | Set_AR u32 | Set_DR u8 | Get_DR u8 | Get_BUSY bool

record GPIOPin =
  group :: nat
  pin :: nat

text \<open>
  The registers the driver writes, as a test double holds them: the value last written
  to each, how many times the data register and the status register have been read, and
  (in \<open>accesses\<close>, oldest first) every access to the transaction interface.
\<close>

record regs =
  DLR :: u32
  CCR :: ccr
  AR :: u32
  DR_reads :: nat
  SR_reads :: nat
  accesses :: "access list"
  MODER :: "nat \<times> nat \<rightharpoonup> Mode"
  AFR :: "nat \<times> nat \<rightharpoonup> AlternateFunction"
  QSPIEN :: bool
  FSIZE :: u8
  CSHT :: u8
  PRESCALER :: u8
  EN :: bool

text \<open>
  What the driver is built and run against: the constants of the build
  (\<open>DefaultOperatingMode\<close> is \<open>Single\<close> in the source as it stands; \<open>QSPIPins\<close> and
  \<open>FlashNumberOfAddressBits\<close> come from the absent header) and what the hardware
  answers: \<open>DR_in b n\<close> is the byte the \<open>n\<close>-th read of the data register stores,
  \<open>SR_BUSY b n\<close> the controller's BUSY flag at the \<open>n\<close>-th read of its status register.
\<close>

record board =
  DefaultOperatingMode :: OperatingMode
  QSPIPins :: "GPIOPin list"
  FlashNumberOfAddressBits :: u8
  DR_in :: "nat \<Rightarrow> u8"
  SR_BUSY :: "nat \<Rightarrow> bool"

subsection \<open>Register accesses\<close>

definition DLR_set :: "u32 \<Rightarrow> regs \<Rightarrow> regs" where
  "DLR_set v s = s\<lparr>DLR := v, accesses := accesses s @ [Set_DLR v]\<rparr>"

definition CCR_set :: "ccr \<Rightarrow> regs \<Rightarrow> regs" where
  "CCR_set c s = s\<lparr>CCR := c, accesses := accesses s @ [Set_CCR c]\<rparr>"

definition AR_set :: "u32 \<Rightarrow> regs \<Rightarrow> regs" where
  "AR_set a s = s\<lparr>AR := a, accesses := accesses s @ [Set_AR a]\<rparr>"

definition DR_set :: "u8 \<Rightarrow> regs \<Rightarrow> regs" where
  "DR_set v s = s\<lparr>accesses := accesses s @ [Set_DR v]\<rparr>"

definition DR_get :: "board \<Rightarrow> regs \<Rightarrow> u8 \<times> regs" where
  "DR_get b s =
     (let v = DR_in b (DR_reads s)
      in (v, s\<lparr>DR_reads := DR_reads s + 1, accesses := accesses s @ [Get_DR v]\<rparr>))"

definition SR_getBUSY :: "board \<Rightarrow> regs \<Rightarrow> bool \<times> regs" where
  "SR_getBUSY b s =
     (let v = SR_BUSY b (SR_reads s)
      in (v, s\<lparr>SR_reads := SR_reads s + 1, accesses := accesses s @ [Get_BUSY v]\<rparr>))"

subsection \<open>Outcomes\<close>

text \<open>
  A call either never returns (\<open>None\<close>: a busy loop that spins forever), or steps
  outside its buffer (\<open>Some (Inl f)\<close>: undefined behaviour in C++), or returns.
\<close>

datatype fault = NullDereference | OutOfBounds

type_synonym 'a outcome = "(fault + 'a) option"

definition and_then :: "'a outcome \<Rightarrow> ('a \<Rightarrow> 'b outcome) \<Rightarrow> 'b outcome" where
  "and_then m f = (case m of None \<Rightarrow> None | Some (Inl e) \<Rightarrow> Some (Inl e) | Some (Inr x) \<Rightarrow> f x)"

subsection \<open>send\_command\_full\<close>

text \<open>The bytes a buffer pointer points to; none behind \<^verbatim>\<open>nullptr\<close>.\<close>

definition contents :: "u8 list option \<Rightarrow> u8 list" where
  "contents data = (case data of None \<Rightarrow> [] | Some buf \<Rightarrow> buf)"

text \<open>
  \<^verbatim>\<open>for (size_t i=0; i<dataLength; i++) { QUADSPI.DR()->set(data[i]); }\<close>, from index \<open>i\<close>.
\<close>

function write_data :: "u8 list option \<Rightarrow> nat \<Rightarrow> nat \<Rightarrow> regs \<Rightarrow> fault + regs" where
  "write_data data dataLength i s =
     (if i < dataLength then
        (case data of
           None \<Rightarrow> Inl NullDereference
         | Some buf \<Rightarrow>
             if i < length buf then write_data data dataLength (i + 1) (DR_set (buf ! i) s)
             else Inl OutOfBounds)
      else Inr s)"
  by pat_completeness auto
termination
  by (relation "measure (\<lambda>(data, dataLength, i, s). dataLength - i)") auto

declare write_data.simps [simp del]

text \<open>
  \<^verbatim>\<open>for (size_t i=0; i<dataLength; i++) { data[i] = QUADSPI.DR()->get(); }\<close>, from index
  \<open>i\<close>; the result holds the buffer as the loop leaves it.
\<close>

function read_data ::
  "board \<Rightarrow> u8 list option \<Rightarrow> nat \<Rightarrow> nat \<Rightarrow> regs \<Rightarrow> fault + (u8 list \<times> regs)" where
  "read_data b data dataLength i s =
     (if i < dataLength then
        (case data of
           None \<Rightarrow> Inl NullDereference
         | Some buf \<Rightarrow>
             if i < length buf then
               (case DR_get b s of (v, s') \<Rightarrow>
                  read_data b (Some (buf[i := v])) dataLength (i + 1) s')
             else Inl OutOfBounds)
      else Inr (contents data, s))"
  by pat_completeness auto
termination
  by (relation "measure (\<lambda>(b, data, dataLength, i, s). dataLength - i)") auto

declare read_data.simps [simp del]

text \<open>\<^verbatim>\<open>while (QUADSPI.SR()->getBUSY()) { }\<close>\<close>

partial_function (option) SR_wait :: "board \<Rightarrow> regs \<Rightarrow> regs option" where
  "SR_wait b s = (case SR_getBUSY b s of (busy, s') \<Rightarrow> if busy then SR_wait b s' else Some s')"

declare SR_wait.simps [code]

text \<open>
  The result holds the caller's buffer after the call (\<open>[]\<close> for \<^verbatim>\<open>nullptr\<close>) and the
  registers.
\<close>

definition send_command_full ::
  "board \<Rightarrow> FunctionalMode \<Rightarrow> OperatingMode \<Rightarrow> Command \<Rightarrow> u32 \<Rightarrow> u8 \<Rightarrow> u8 list option \<Rightarrow> size_t
     \<Rightarrow> regs \<Rightarrow> (u8 list \<times> regs) outcome" where
  "send_command_full b functionalMode operatingMode c address dummyCycles data dataLength s =
     (let ccr = ccr_zero;
          ccr = ccr\<lparr>FMODE := Some functionalMode\<rparr>;
          ccr = (if data \<noteq> None \<or> functionalMode = MemoryMapped
                 then ccr\<lparr>DMODE := Some operatingMode\<rparr> else ccr);
          s = DLR_set (if dataLength > 0 then dataLength - 1 else 0) s;
          ccr = ccr\<lparr>DCYC := take_bit 5 dummyCycles\<rparr>;
          ccr = (if address \<noteq> 0 \<or> functionalMode = MemoryMapped
                 then ccr\<lparr>ADMODE := Some operatingMode, ADSIZE := Some ThreeBytes\<rparr> else ccr);
          ccr = ccr\<lparr>IMODE := Some operatingMode\<rparr>;
          ccr = ccr\<lparr>INSTRUCTION := Some c\<rparr>;
          s = CCR_set ccr s;
          s = (if address \<noteq> 0 then AR_set address s else s);
          transferred =
            (if functionalMode = IndirectWrite then
               (case write_data data (unat dataLength) 0 s of
                  Inl e \<Rightarrow> Inl e
                | Inr s' \<Rightarrow> Inr (contents data, s'))
             else if functionalMode = IndirectRead then read_data b data (unat dataLength) 0 s
             else Inr (contents data, s))
      in case transferred of
           Inl e \<Rightarrow> Some (Inl e)
         | Inr (buf, s) \<Rightarrow>
             if functionalMode \<noteq> MemoryMapped
             then map_option (\<lambda>s'. Inr (buf, s')) (SR_wait b s)
             else Some (Inr (buf, s)))"

subsection \<open>The command helpers\<close>

definition send_command :: "board \<Rightarrow> Command \<Rightarrow> regs \<Rightarrow> regs outcome" where
  "send_command b c s =
     and_then (send_command_full b IndirectWrite (DefaultOperatingMode b) c 0 0 None 0 s)
       (\<lambda>(buf, s'). Some (Inr s'))"

definition send_command_single :: "board \<Rightarrow> Command \<Rightarrow> regs \<Rightarrow> regs outcome" where
  "send_command_single b c s =
     and_then (send_command_full b IndirectWrite Single c 0 0 None 0 s)
       (\<lambda>(buf, s'). Some (Inr s'))"

definition send_write_command ::
  "board \<Rightarrow> Command \<Rightarrow> u32 \<Rightarrow> u8 list option \<Rightarrow> size_t \<Rightarrow> regs \<Rightarrow> (u8 list \<times> regs) outcome" where
  "send_write_command b c address data dataLength s =
     send_command_full b IndirectWrite (DefaultOperatingMode b) c address 0 data dataLength s"

definition send_read_command ::
  "board \<Rightarrow> Command \<Rightarrow> u32 \<Rightarrow> u8 list option \<Rightarrow> size_t \<Rightarrow> regs \<Rightarrow> (u8 list \<times> regs) outcome" where
  "send_read_command b c address data dataLength s =
     send_command_full b IndirectRead (DefaultOperatingMode b) c address 0 data dataLength s"

subsection \<open>wait\<close>

text \<open>
  \<^verbatim>\<open>ExternalFlashStatusRegister\<close> derives from \<^verbatim>\<open>Register16\<close>, whose declaration is in an
  absent header: by its name and its use a wrapper of one 16-bit value, so two bytes in
  memory, the low byte first on the device (little-endian). \<^verbatim>\<open>REGS_BOOL_FIELD(BUSY, 0)\<close>
  is its bit 0. \<open>bytes_of_Register16\<close> and \<open>Register16_of_bytes\<close> are the
  \<^verbatim>\<open>reinterpret_cast<uint8_t *>\<close> of \<^verbatim>\<open>wait\<close>, there and back.
\<close>

definition sizeof_statusRegister :: size_t where
  "sizeof_statusRegister = 2"

definition bytes_of_Register16 :: "u16 \<Rightarrow> u8 list" where
  "bytes_of_Register16 v = [ucast v, ucast (drop_bit 8 v)]"

definition Register16_of_bytes :: "u8 list \<Rightarrow> u16" where
  "Register16_of_bytes bs = foldr (\<lambda>x v. ucast x OR push_bit 8 v) bs 0"

definition getBUSY :: "u16 \<Rightarrow> bool" where
  "getBUSY v = bit v 0"

text \<open>
  The \<^verbatim>\<open>do { ... } while (statusRegister.getBUSY());\<close> of \<^verbatim>\<open>wait\<close>: the body runs,
  then the test.
\<close>

partial_function (option) wait_loop :: "board \<Rightarrow> u16 \<Rightarrow> regs \<Rightarrow> regs outcome" where
  "wait_loop b statusRegister s =
     (case send_read_command b ReadStatusRegister 0 (Some (bytes_of_Register16 statusRegister))
             sizeof_statusRegister s of
        None \<Rightarrow> None
      | Some (Inl e) \<Rightarrow> Some (Inl e)
      | Some (Inr (buf, s')) \<Rightarrow>
          if getBUSY (Register16_of_bytes buf) then wait_loop b (Register16_of_bytes buf) s'
          else Some (Inr s'))"

declare wait_loop.simps [code]

definition wait :: "board \<Rightarrow> regs \<Rightarrow> regs outcome" where
  "wait b s = wait_loop b 0 s"

subsection \<open>The operations\<close>

definition set_as_memory_mapped :: "board \<Rightarrow> regs \<Rightarrow> regs outcome" where
  "set_as_memory_mapped b s =
     and_then (send_command_full b MemoryMapped (DefaultOperatingMode b) ReadData 0 0 None 0 s)
       (\<lambda>(buf, s'). Some (Inr s'))"

definition initGPIO :: "board \<Rightarrow> regs \<Rightarrow> regs" where
  "initGPIO b s =
     foldl (\<lambda>s g.
        s\<lparr>MODER := (MODER s)((group g, pin g) \<mapsto> AlternateFunction),
          AFR := (AFR s)((group g, pin g) \<mapsto> (if pin g = 6 then AF10 else AF9))\<rparr>)
       s (QSPIPins b)"

definition initQSPI :: "board \<Rightarrow> regs \<Rightarrow> regs" where
  "initQSPI b s =
     s\<lparr>QSPIEN := True, FSIZE := FlashNumberOfAddressBits b - 1, CSHT := 7,
       PRESCALER := 255, EN := True\<rparr>"

definition initChip :: "board \<Rightarrow> regs \<Rightarrow> regs outcome" where
  "initChip b s =
     (if DefaultOperatingMode b = Quad
      then and_then (send_command_single b EnableQPI s) (set_as_memory_mapped b)
      else set_as_memory_mapped b s)"

definition init :: "board \<Rightarrow> regs \<Rightarrow> regs outcome" where
  "init b s = initChip b (initQSPI b (initGPIO b s))"

definition MassErase :: "board \<Rightarrow> regs \<Rightarrow> regs outcome" where
  "MassErase b s =
     and_then (send_command b WriteEnable s) (\<lambda>s.
     and_then (send_command b ChipErase s) (\<lambda>s.
     and_then (wait b s) (\<lambda>s.
     set_as_memory_mapped b s)))"

text \<open>The erase command itself is commented out in the source; so it is not here.\<close>

definition EraseSector :: "board \<Rightarrow> regs \<Rightarrow> regs outcome" where
  "EraseSector b s =
     and_then (send_command b WriteEnable s) (\<lambda>s.
     and_then (wait b s) (\<lambda>s.
     set_as_memory_mapped b s))"


text \<open>
  The page-program command is commented out in the source; \<open>source\<close>, \<open>destination\<close>
  and \<open>length'\<close> (the source's \<^verbatim>\<open>length\<close>) are not used.
\<close>

definition WriteMemory :: "board \<Rightarrow> u32 list \<Rightarrow> u32 \<Rightarrow> size_t \<Rightarrow> regs \<Rightarrow> regs outcome" where
  "WriteMemory b source destination length' s =
     and_then (send_command b WriteEnable s) (\<lambda>s.
     and_then (wait b s) (\<lambda>s.
     set_as_memory_mapped b s))"

subsection \<open>Observations of a run\<close>

text \<open>The values written to the command register, oldest first: one per transaction.\<close>

fun transactions :: "access list \<Rightarrow> ccr list" where
  "transactions [] = []"
| "transactions (Set_CCR c # as) = c # transactions as"
| "transactions (a # as) = transactions as"

section \<open>Analysis\<close>

subsection \<open>What a call did\<close>

text \<open>
  The accesses a call made, given the registers before and after it, and what they hold:
  the values written to the data-length and address registers, the BUSY flags read from
  the controller, the bytes read from the data register.
\<close>

fun AR_writes :: "access list \<Rightarrow> u32 list" where
  "AR_writes [] = []"
| "AR_writes (Set_AR a # as) = a # AR_writes as"
| "AR_writes (x # as) = AR_writes as"

fun DLR_writes :: "access list \<Rightarrow> u32 list" where
  "DLR_writes [] = []"
| "DLR_writes (Set_DLR v # as) = v # DLR_writes as"
| "DLR_writes (x # as) = DLR_writes as"

fun BUSY_reads :: "access list \<Rightarrow> bool list" where
  "BUSY_reads [] = []"
| "BUSY_reads (Get_BUSY v # as) = v # BUSY_reads as"
| "BUSY_reads (x # as) = BUSY_reads as"

fun DR_values :: "access list \<Rightarrow> u8 list" where
  "DR_values [] = []"
| "DR_values (Get_DR v # as) = v # DR_values as"
| "DR_values (x # as) = DR_values as"

definition issued :: "regs \<Rightarrow> regs \<Rightarrow> access list" where
  "issued s s' = drop (length (accesses s)) (accesses s')"

subsection \<open>The registers after a transaction\<close>

text \<open>
  \<open>built_ccr\<close> is the value \<open>send_command_full\<close> writes to the command register,
  \<open>programmed\<close> the registers once it has written the data length, the command and the
  address (line 107 of the source), \<open>completed\<close> the registers when it returns after
  \<open>k\<close> reads of a set BUSY flag.
\<close>

definition built_ccr ::
  "FunctionalMode \<Rightarrow> OperatingMode \<Rightarrow> Command \<Rightarrow> u32 \<Rightarrow> u8 \<Rightarrow> u8 list option \<Rightarrow> ccr" where
  "built_ccr fm om c address dc data =
     \<lparr>FMODE = Some fm,
      DMODE = (if data \<noteq> None \<or> fm = MemoryMapped then Some om else None),
      DCYC = take_bit 5 dc,
      ADMODE = (if address \<noteq> 0 \<or> fm = MemoryMapped then Some om else None),
      ADSIZE = (if address \<noteq> 0 \<or> fm = MemoryMapped then Some ThreeBytes else None),
      IMODE = Some om,
      INSTRUCTION = Some c\<rparr>"

definition programmed ::
  "FunctionalMode \<Rightarrow> OperatingMode \<Rightarrow> Command \<Rightarrow> u32 \<Rightarrow> u8 \<Rightarrow> u8 list option \<Rightarrow> size_t
     \<Rightarrow> regs \<Rightarrow> regs" where
  "programmed fm om c address dc data n s =
     s\<lparr>DLR := (if n > 0 then n - 1 else 0),
       CCR := built_ccr fm om c address dc data,
       AR := (if address \<noteq> 0 then address else AR s),
       accesses := accesses s @
         [Set_DLR (if n > 0 then n - 1 else 0), Set_CCR (built_ccr fm om c address dc data)] @
         (if address \<noteq> 0 then [Set_AR address] else [])\<rparr>"

definition transfer_accesses ::
  "board \<Rightarrow> FunctionalMode \<Rightarrow> u8 list option \<Rightarrow> size_t \<Rightarrow> regs \<Rightarrow> access list" where
  "transfer_accesses b fm data n s =
     (if fm = IndirectWrite then map Set_DR (take (unat n) (contents data))
      else if fm = IndirectRead then map (\<lambda>k. Get_DR (DR_in b (DR_reads s + k))) [0..<unat n]
      else [])"

definition busy_accesses :: "FunctionalMode \<Rightarrow> nat \<Rightarrow> access list" where
  "busy_accesses fm k =
     (if fm = MemoryMapped then [] else replicate k (Get_BUSY True) @ [Get_BUSY False])"

definition completed ::
  "board \<Rightarrow> FunctionalMode \<Rightarrow> OperatingMode \<Rightarrow> Command \<Rightarrow> u32 \<Rightarrow> u8 \<Rightarrow> u8 list option \<Rightarrow> size_t
     \<Rightarrow> nat \<Rightarrow> regs \<Rightarrow> regs" where
  "completed b fm om c address dc data n k s =
     (programmed fm om c address dc data n s)
       \<lparr>DR_reads := DR_reads s + (if fm = IndirectRead then unat n else 0),
        SR_reads := SR_reads s + (if fm = MemoryMapped then 0 else k + 1),
        accesses := accesses (programmed fm om c address dc data n s) @
          transfer_accesses b fm data n s @ busy_accesses fm k\<rparr>"

text \<open>
  The three command register values the operations write: a command without address or
  data, the status read of \<open>wait\<close>, and the read that enters \<open>MemoryMapped\<close> mode.
\<close>

definition command_ccr :: "OperatingMode \<Rightarrow> Command \<Rightarrow> ccr" where
  "command_ccr om c = \<lparr>FMODE = Some IndirectWrite, DMODE = None, DCYC = 0, ADMODE = None,
     ADSIZE = None, IMODE = Some om, INSTRUCTION = Some c\<rparr>"

definition memory_mapped_ccr :: "OperatingMode \<Rightarrow> ccr" where
  "memory_mapped_ccr om = \<lparr>FMODE = Some MemoryMapped, DMODE = Some om, DCYC = 0,
     ADMODE = Some om, ADSIZE = Some ThreeBytes, IMODE = Some om, INSTRUCTION = Some ReadData\<rparr>"

definition status_ccr :: "OperatingMode \<Rightarrow> ccr" where
  "status_ccr om = \<lparr>FMODE = Some IndirectRead, DMODE = Some om, DCYC = 0, ADMODE = None,
     ADSIZE = None, IMODE = Some om, INSTRUCTION = Some ReadStatusRegister\<rparr>"

text \<open>
  What holds when \<open>wait\<close> returns \<open>s'\<close> from \<open>s\<close> after \<open>n + 1\<close> polls.
\<close>

definition waited :: "board \<Rightarrow> regs \<Rightarrow> nat \<Rightarrow> regs \<Rightarrow> bool" where
  "waited b s n s' \<longleftrightarrow>
     list_all (\<lambda>k. bit (DR_in b (DR_reads s + 2 * k)) 0) [0..<n] \<and>
     \<not> bit (DR_in b (DR_reads s + 2 * n)) 0 \<and>
     DLR s' = 1 \<and> CCR s' = status_ccr (DefaultOperatingMode b) \<and> AR s' = AR s \<and>
     DR_reads s' = DR_reads s + 2 * (n + 1) \<and> SR_reads s + (n + 1) \<le> SR_reads s' \<and>
     accesses s' = accesses s @ issued s s' \<and>
     transactions (issued s s') = replicate (n + 1) (status_ccr (DefaultOperatingMode b)) \<and>
     DLR_writes (issued s s') = replicate (n + 1) 1 \<and>
     AR_writes (issued s s') = [] \<and>
     DR_values (issued s s') = map (DR_in b) [DR_reads s..<DR_reads s + 2 * (n + 1)]"

subsection \<open>Concrete hardware\<close>

text \<open>
  A board whose controller is never busy and whose flash answers every status read with
  0, and registers nothing has touched yet.
\<close>

definition ready_board :: board where
  "ready_board = \<lparr>DefaultOperatingMode = Single, QSPIPins = [], FlashNumberOfAddressBits = 23,
     DR_in = (\<lambda>n. 0), SR_BUSY = (\<lambda>n. False)\<rparr>"

definition idle_regs :: regs where
  "idle_regs = \<lparr>DLR = 0, CCR = ccr_zero, AR = 0, DR_reads = 0, SR_reads = 0, accesses = [],
     MODER = Map.empty, AFR = Map.empty, QSPIEN = False, FSIZE = 0, CSHT = 0, PRESCALER = 0,
     EN = False\<rparr>"

text \<open>
  A board whose controller is busy at the first two reads of its status register, and
  one whose controller stays busy for ever.
\<close>

definition busy_twice_board :: board where
  "busy_twice_board = \<lparr>DefaultOperatingMode = Single, QSPIPins = [],
     FlashNumberOfAddressBits = 23, DR_in = (\<lambda>n. 0), SR_BUSY = (\<lambda>n. n < 2)\<rparr>"

definition stuck_controller_board :: board where
  "stuck_controller_board = \<lparr>DefaultOperatingMode = Single, QSPIPins = [],
     FlashNumberOfAddressBits = 23, DR_in = (\<lambda>n. 0), SR_BUSY = (\<lambda>n. True)\<rparr>"

text \<open>
  A board whose flash reports busy at the first two polls of its status register and
  ready from the third on, one whose flash reports busy for ever, and one built for
  \<open>Quad\<close> mode whose controller is busy at the first read of its status register.
\<close>

definition busy_chip_board :: board where
  "busy_chip_board = \<lparr>DefaultOperatingMode = Single, QSPIPins = [],
     FlashNumberOfAddressBits = 23, DR_in = (\<lambda>n. if n < 4 then 1 else 0),
     SR_BUSY = (\<lambda>n. False)\<rparr>"

definition stuck_chip_board :: board where
  "stuck_chip_board = \<lparr>DefaultOperatingMode = Single, QSPIPins = [],
     FlashNumberOfAddressBits = 23, DR_in = (\<lambda>n. 1), SR_BUSY = (\<lambda>n. False)\<rparr>"

definition quad_board :: board where
  "quad_board = \<lparr>DefaultOperatingMode = Quad,
     QSPIPins = [\<lparr>group = 1, pin = 2\<rparr>, \<lparr>group = 1, pin = 6\<rparr>],
     FlashNumberOfAddressBits = 23, DR_in = (\<lambda>n. 0), SR_BUSY = (\<lambda>n. n < 1)\<rparr>"

section \<open>Lemmas\<close>

subsection \<open>The busy loop of the controller\<close>

lemma and_then_simps [simp]:
  "and_then None f = None"
  "and_then (Some (Inl e)) f = Some (Inl e)"
  "and_then (Some (Inr x)) f = f x"
  by (simp_all add: and_then_def)

lemma SR_wait_Some:
  assumes "SR_wait b s = Some s'"
  shows "\<exists>k. (\<forall>i<k. SR_BUSY b (SR_reads s + i)) \<and> \<not> SR_BUSY b (SR_reads s + k) \<and>
         s' = s\<lparr>SR_reads := SR_reads s + k + 1,
                accesses := accesses s @ replicate k (Get_BUSY True) @ [Get_BUSY False]\<rparr>"
proof -
  define P where "P = (\<lambda>(b::board) (s::regs) (s'::regs). \<exists>k. (\<forall>i<k. SR_BUSY b (SR_reads s + i)) \<and>
         \<not> SR_BUSY b (SR_reads s + k) \<and>
         s' = s\<lparr>SR_reads := SR_reads s + k + 1,
                accesses := accesses s @ replicate k (Get_BUSY True) @ [Get_BUSY False]\<rparr>)"
  have "P b s s'"
  proof (rule SR_wait.raw_induct [where P = P, OF _ assms])
    fix f b s s'
    assume IH: "\<And>b s y. f b s = Some y \<Longrightarrow> P b s y"
      and eq: "(case SR_getBUSY b s of (busy, s') \<Rightarrow> if busy then f b s' else Some s') = Some s'"
    show "P b s s'"
    proof (cases "SR_BUSY b (SR_reads s)")
      case False
      with eq have "s' = s\<lparr>SR_reads := SR_reads s + 1, accesses := accesses s @ [Get_BUSY False]\<rparr>"
        by (simp add: SR_getBUSY_def)
      with False show ?thesis unfolding P_def by (intro exI [of _ 0]) simp
    next
      case True
      let ?s1 = "s\<lparr>SR_reads := SR_reads s + 1, accesses := accesses s @ [Get_BUSY True]\<rparr>"
      from True eq have "f b ?s1 = Some s'"
        by (simp add: SR_getBUSY_def)
      from IH [OF this] obtain k where
        k: "\<forall>i<k. SR_BUSY b (SR_reads ?s1 + i)" "\<not> SR_BUSY b (SR_reads ?s1 + k)"
          "s' = ?s1\<lparr>SR_reads := SR_reads ?s1 + k + 1,
                  accesses := accesses ?s1 @ replicate k (Get_BUSY True) @ [Get_BUSY False]\<rparr>"
        unfolding P_def by (elim exE conjE)
      have a: "\<forall>i<Suc k. SR_BUSY b (SR_reads s + i)"
      proof (intro allI impI)
        fix i assume "i < Suc k"
        show "SR_BUSY b (SR_reads s + i)"
        proof (cases i)
          case 0 with True show ?thesis by simp
        next
          case (Suc j)
          with \<open>i < Suc k\<close> k(1) have "SR_BUSY b (SR_reads ?s1 + j)" by simp
          with Suc show ?thesis by simp
        qed
      qed
      from k(2) have b: "\<not> SR_BUSY b (SR_reads s + Suc k)" by simp
      from k(3) have c: "s' = s\<lparr>SR_reads := SR_reads s + Suc k + 1,
                  accesses := accesses s @ replicate (Suc k) (Get_BUSY True) @ [Get_BUSY False]\<rparr>"
        by simp
      show ?thesis unfolding P_def by (rule exI [of _ "Suc k"]) (intro conjI a b c)
    qed
  qed
  then show ?thesis unfolding P_def .
qed

lemma SR_wait_returns:
  "\<not> SR_BUSY b (SR_reads s + k) \<Longrightarrow> \<exists>s'. SR_wait b s = Some s'"
proof (induction k arbitrary: s)
  case 0
  then show ?case by (subst SR_wait.simps) (simp add: SR_getBUSY_def)
next
  case (Suc k)
  let ?s1 = "s\<lparr>SR_reads := SR_reads s + 1, accesses := accesses s @ [Get_BUSY True]\<rparr>"
  from Suc.prems have "\<not> SR_BUSY b (SR_reads ?s1 + k)" by simp
  from Suc.IH [OF this] obtain s' where "SR_wait b ?s1 = Some s'" by blast
  then show ?case
    by (subst SR_wait.simps) (cases "SR_BUSY b (SR_reads s)"; simp add: SR_getBUSY_def)
qed

subsection \<open>The data loops\<close>

lemma write_data_Inr:
  "write_data data n i s = Inr s' \<Longrightarrow>
     s' = s\<lparr>accesses := accesses s @ map Set_DR (take (n - i) (drop i (contents data)))\<rparr>"
proof (induction data n i s rule: write_data.induct)
  case (1 data n i s)
  show ?case
  proof (cases "i < n")
    case False
    with "1.prems" show ?thesis by (simp add: write_data.simps [of data n i s])
  next
    case True
    with "1.prems" [unfolded write_data.simps [of data n i s]]
    obtain buf where buf: "data = Some buf" "i < length buf"
      and rec: "write_data data n (i + 1) (DR_set (buf ! i) s) = Inr s'"
      by (cases data) (auto split: if_splits)
    from "1.IH" [OF True buf rec]
    have "s' = (DR_set (buf ! i) s)\<lparr>accesses := accesses (DR_set (buf ! i) s) @
            map Set_DR (take (n - (i + 1)) (drop (i + 1) (contents data)))\<rparr>" .
    moreover from True buf have "take (n - i) (drop i buf) = buf ! i # take (n - (i + 1)) (drop (i + 1) buf)"
      by (simp add: Cons_nth_drop_Suc [symmetric] take_Cons')
    ultimately show ?thesis using buf by (simp add: DR_set_def contents_def)
  qed
qed

lemma read_data_Inr:
  "read_data b data n i s = Inr (buf', s') \<Longrightarrow>
     s' = s\<lparr>DR_reads := DR_reads s + (n - i),
            accesses := accesses s @ map (\<lambda>k. Get_DR (DR_in b (DR_reads s + k))) [0..<n - i]\<rparr>"
proof (induction b data n i s rule: read_data.induct)
  case (1 b data n i s)
  show ?case
  proof (cases "i < n")
    case False
    with "1.prems" show ?thesis by (simp add: read_data.simps [of b data n i s])
  next
    case True
    let ?v = "DR_in b (DR_reads s)"
    let ?s1 = "s\<lparr>DR_reads := DR_reads s + 1, accesses := accesses s @ [Get_DR ?v]\<rparr>"
    have get: "DR_get b s = (?v, ?s1)" by (simp add: DR_get_def Let_def)
    from True "1.prems" [unfolded read_data.simps [of b data n i s]]
    obtain buf where buf: "data = Some buf" "i < length buf"
      and rec: "read_data b (Some (buf[i := ?v])) n (i + 1) ?s1 = Inr (buf', s')"
      by (cases data) (auto split: if_splits simp: DR_get_def Let_def)
    from "1.IH" [OF True buf get [symmetric] rec]
    have "s' = ?s1\<lparr>DR_reads := DR_reads ?s1 + (n - (i + 1)),
            accesses := accesses ?s1 @ map (\<lambda>k. Get_DR (DR_in b (DR_reads ?s1 + k))) [0..<n - (i + 1)]\<rparr>" .
    moreover from True have "[0..<n - i] = 0 # map Suc [0..<n - (i + 1)]"
      by (metis Suc_diff_Suc Suc_eq_plus1 diff_diff_left map_Suc_upt upt_conv_Cons zero_less_Suc zero_less_diff)
    ultimately show ?thesis using True by (simp add: comp_def)
  qed
qed

subsection \<open>One transaction\<close>

lemma send_command_full_unfold:
  "send_command_full b fm om c address dc data n s =
     (case (if fm = IndirectWrite then
              (case write_data data (unat n) 0 (programmed fm om c address dc data n s) of
                 Inl e \<Rightarrow> Inl e
               | Inr s' \<Rightarrow> Inr (contents data, s'))
            else if fm = IndirectRead
            then read_data b data (unat n) 0 (programmed fm om c address dc data n s)
            else Inr (contents data, programmed fm om c address dc data n s)) of
        Inl e \<Rightarrow> Some (Inl e)
      | Inr (buf, s1) \<Rightarrow>
          if fm \<noteq> MemoryMapped then map_option (\<lambda>s'. Inr (buf, s')) (SR_wait b s1)
          else Some (Inr (buf, s1)))"
  by (cases fm; cases "address = 0"; cases data; hypsubst)
    (simp_all add: send_command_full_def Let_def programmed_def built_ccr_def ccr_zero_def
       CCR_set_def DLR_set_def AR_set_def)

lemma send_command_full_Inr:
  assumes "send_command_full b fm om c address dc data n s = Some (Inr (buf, s'))"
  shows "\<exists>k. (fm \<noteq> MemoryMapped \<longrightarrow>
              (\<forall>i<k. SR_BUSY b (SR_reads s + i)) \<and> \<not> SR_BUSY b (SR_reads s + k)) \<and>
           s' = completed b fm om c address dc data n k s"
proof (cases fm)
  case MemoryMapped
  with assms have "s' = programmed fm om c address dc data n s"
    by (simp add: send_command_full_unfold)
  with MemoryMapped show ?thesis
    by (simp add: completed_def transfer_accesses_def busy_accesses_def programmed_def)
next
  case IndirectWrite
  let ?p = "programmed fm om c address dc data n s"
  from assms IndirectWrite obtain s1 where
    w: "write_data data (unat n) 0 ?p = Inr s1" and sr: "SR_wait b s1 = Some s'"
    by (auto simp: send_command_full_unfold split: sum.splits)
  from write_data_Inr [OF w]
  have s1: "s1 = ?p\<lparr>accesses := accesses ?p @ map Set_DR (take (unat n) (contents data))\<rparr>"
    by simp
  from SR_wait_Some [OF sr] obtain k where
    k: "\<forall>i<k. SR_BUSY b (SR_reads s1 + i)" "\<not> SR_BUSY b (SR_reads s1 + k)"
      "s' = s1\<lparr>SR_reads := SR_reads s1 + k + 1,
                accesses := accesses s1 @ replicate k (Get_BUSY True) @ [Get_BUSY False]\<rparr>"
    by (elim exE conjE)
  have sr1: "SR_reads s1 = SR_reads s" by (simp add: s1 programmed_def)
  from k(3) have "s' = completed b fm om c address dc data n k s"
    by (simp add: s1 IndirectWrite completed_def transfer_accesses_def busy_accesses_def
          programmed_def)
  with k(1,2) sr1 IndirectWrite show ?thesis by auto
next
  case IndirectRead
  let ?p = "programmed fm om c address dc data n s"
  from assms IndirectRead obtain s1 where
    r: "read_data b data (unat n) 0 ?p = Inr (buf, s1)" and sr: "SR_wait b s1 = Some s'"
    by (auto simp: send_command_full_unfold split: sum.splits)
  from read_data_Inr [OF r]
  have s1: "s1 = ?p\<lparr>DR_reads := DR_reads ?p + unat n,
      accesses := accesses ?p @ map (\<lambda>k. Get_DR (DR_in b (DR_reads ?p + k))) [0..<unat n]\<rparr>"
    by simp
  from SR_wait_Some [OF sr] obtain k where
    k: "\<forall>i<k. SR_BUSY b (SR_reads s1 + i)" "\<not> SR_BUSY b (SR_reads s1 + k)"
      "s' = s1\<lparr>SR_reads := SR_reads s1 + k + 1,
                accesses := accesses s1 @ replicate k (Get_BUSY True) @ [Get_BUSY False]\<rparr>"
    by (elim exE conjE)
  have sr1: "SR_reads s1 = SR_reads s" by (simp add: s1 programmed_def)
  from k(3) have "s' = completed b fm om c address dc data n k s"
    by (simp add: s1 IndirectRead completed_def transfer_accesses_def busy_accesses_def
          programmed_def)
  with k(1,2) sr1 IndirectRead show ?thesis by auto
qed

lemma completed_simps [simp]:
  "DLR (completed b fm om c address dc data n k s) = (if n > 0 then n - 1 else 0)"
  "CCR (completed b fm om c address dc data n k s) = built_ccr fm om c address dc data"
  "AR (completed b fm om c address dc data n k s) = (if address \<noteq> 0 then address else AR s)"
  "DR_reads (completed b fm om c address dc data n k s) =
     DR_reads s + (if fm = IndirectRead then unat n else 0)"
  "SR_reads (completed b fm om c address dc data n k s) =
     SR_reads s + (if fm = MemoryMapped then 0 else k + 1)"
  "accesses (completed b fm om c address dc data n k s) =
     accesses s @
     [Set_DLR (if n > 0 then n - 1 else 0), Set_CCR (built_ccr fm om c address dc data)] @
     (if address \<noteq> 0 then [Set_AR address] else []) @
     transfer_accesses b fm data n s @ busy_accesses fm k"
  by (simp_all add: completed_def programmed_def)

lemma write_data_in_bounds:
  "n \<le> length (contents data) \<Longrightarrow> \<exists>s'. write_data data n i s = Inr s'"
proof (induction data n i s rule: write_data.induct)
  case (1 data n i s)
  show ?case
  proof (cases "i < n")
    case False
    then show ?thesis by (simp add: write_data.simps [of data n i s])
  next
    case True
    with "1.prems" obtain buf where buf: "data = Some buf" "i < length buf"
      by (cases data) (auto simp: contents_def)
    from "1.IH" [OF True buf "1.prems"] True buf show ?thesis
      by (subst write_data.simps) simp
  qed
qed

lemma read_data_in_bounds:
  "n \<le> length (contents data) \<Longrightarrow> \<exists>r. read_data b data n i s = Inr r"
proof (induction b data n i s rule: read_data.induct)
  case (1 b data n i s)
  show ?case
  proof (cases "i < n")
    case False
    then show ?thesis by (simp add: read_data.simps [of b data n i s])
  next
    case True
    with "1.prems" obtain buf where buf: "data = Some buf" "i < length buf"
      by (cases data) (auto simp: contents_def)
    obtain v s1 where get: "DR_get b s = (v, s1)" by (cases "DR_get b s")
    from "1.prems" buf have "n \<le> length (contents (Some (buf[i := v])))"
      by (simp add: contents_def)
    from "1.IH" [OF True buf get [symmetric] this] True buf get show ?thesis
      by (subst read_data.simps) simp
  qed
qed

lemma send_command_full_returns:
  assumes "unat n \<le> length (contents data)"
    and "fm = MemoryMapped \<or> (\<exists>k. \<not> SR_BUSY b (SR_reads s + k))"
  shows "\<exists>buf s'. send_command_full b fm om c address dc data n s = Some (Inr (buf, s'))"
proof (cases fm)
  case MemoryMapped
  then show ?thesis by (simp add: send_command_full_unfold)
next
  case IndirectWrite
  let ?p = "programmed fm om c address dc data n s"
  from write_data_in_bounds [OF assms(1)] obtain s1 where
    w: "write_data data (unat n) 0 ?p = Inr s1" by blast
  from write_data_Inr [OF w] have "SR_reads s1 = SR_reads s" by (simp add: programmed_def)
  with assms(2) IndirectWrite obtain k where "\<not> SR_BUSY b (SR_reads s1 + k)" by auto
  from SR_wait_returns [OF this] obtain s' where "SR_wait b s1 = Some s'" by blast
  with w IndirectWrite show ?thesis by (simp add: send_command_full_unfold)
next
  case IndirectRead
  let ?p = "programmed fm om c address dc data n s"
  from read_data_in_bounds [OF assms(1)] obtain buf s1 where
    r: "read_data b data (unat n) 0 ?p = Inr (buf, s1)" by (metis surj_pair)
  from read_data_Inr [OF r] have "SR_reads s1 = SR_reads s" by (simp add: programmed_def)
  with assms(2) IndirectRead obtain k where "\<not> SR_BUSY b (SR_reads s1 + k)" by auto
  from SR_wait_returns [OF this] obtain s' where "SR_wait b s1 = Some s'" by blast
  with r IndirectRead show ?thesis by (simp add: send_command_full_unfold)
qed

subsection \<open>What the accesses of a transaction hold\<close>

lemma transactions_append [simp]:
  "transactions (xs @ ys) = transactions xs @ transactions ys"
  by (induction xs rule: transactions.induct) simp_all

lemma AR_writes_append [simp]: "AR_writes (xs @ ys) = AR_writes xs @ AR_writes ys"
  by (induction xs rule: AR_writes.induct) simp_all

lemma DLR_writes_append [simp]: "DLR_writes (xs @ ys) = DLR_writes xs @ DLR_writes ys"
  by (induction xs rule: DLR_writes.induct) simp_all

lemma BUSY_reads_append [simp]: "BUSY_reads (xs @ ys) = BUSY_reads xs @ BUSY_reads ys"
  by (induction xs rule: BUSY_reads.induct) simp_all

lemma DR_values_append [simp]: "DR_values (xs @ ys) = DR_values xs @ DR_values ys"
  by (induction xs rule: DR_values.induct) simp_all

lemma projections_Set_DR [simp]:
  "transactions (map Set_DR bs) = []" "AR_writes (map Set_DR bs) = []"
  "DLR_writes (map Set_DR bs) = []" "BUSY_reads (map Set_DR bs) = []"
  "DR_values (map Set_DR bs) = []"
  by (induction bs) simp_all

lemma projections_Get_DR [simp]:
  "transactions (map (\<lambda>k. Get_DR (f k)) ks) = []" "AR_writes (map (\<lambda>k. Get_DR (f k)) ks) = []"
  "DLR_writes (map (\<lambda>k. Get_DR (f k)) ks) = []" "BUSY_reads (map (\<lambda>k. Get_DR (f k)) ks) = []"
  "DR_values (map (\<lambda>k. Get_DR (f k)) ks) = map f ks"
  by (induction ks) simp_all

lemma projections_Get_BUSY [simp]:
  "transactions (replicate k (Get_BUSY v)) = []" "AR_writes (replicate k (Get_BUSY v)) = []"
  "DLR_writes (replicate k (Get_BUSY v)) = []"
  "BUSY_reads (replicate k (Get_BUSY v)) = replicate k v"
  "DR_values (replicate k (Get_BUSY v)) = []"
  by (induction k) simp_all

lemma projections_transfer [simp]:
  "transactions (transfer_accesses b fm data n s) = []"
  "AR_writes (transfer_accesses b fm data n s) = []"
  "DLR_writes (transfer_accesses b fm data n s) = []"
  "BUSY_reads (transfer_accesses b fm data n s) = []"
  by (simp_all add: transfer_accesses_def)

lemma projections_busy [simp]:
  "transactions (busy_accesses fm k) = []"
  "AR_writes (busy_accesses fm k) = []"
  "DLR_writes (busy_accesses fm k) = []"
  "DR_values (busy_accesses fm k) = []"
  "BUSY_reads (busy_accesses fm k) = (if fm = MemoryMapped then [] else replicate k True @ [False])"
  by (simp_all add: busy_accesses_def)

lemma issued_completed [simp]:
  "issued s (completed b fm om c address dc data n k s) =
     [Set_DLR (if n > 0 then n - 1 else 0), Set_CCR (built_ccr fm om c address dc data)] @
     (if address \<noteq> 0 then [Set_AR address] else []) @
     transfer_accesses b fm data n s @ busy_accesses fm k"
  by (simp add: issued_def)

lemma send_command_full_no_fault:
  assumes "unat n \<le> length (contents data)"
  shows "send_command_full b fm om c address dc data n s \<noteq> Some (Inl e)"
proof (cases fm)
  case MemoryMapped
  then show ?thesis by (simp add: send_command_full_unfold)
next
  case IndirectWrite
  from write_data_in_bounds [OF assms] obtain s1 where
    "write_data data (unat n) 0 (programmed fm om c address dc data n s) = Inr s1" by blast
  with IndirectWrite show ?thesis
    by (cases "SR_wait b s1") (simp_all add: send_command_full_unfold)
next
  case IndirectRead
  from read_data_in_bounds [OF assms] obtain buf s1 where
    "read_data b data (unat n) 0 (programmed fm om c address dc data n s) = Inr (buf, s1)"
    by (metis surj_pair)
  with IndirectRead show ?thesis
    by (cases "SR_wait b s1") (simp_all add: send_command_full_unfold)
qed

subsection \<open>Polling the status register\<close>

lemma read_data_two:
  "read_data b (Some [x, y]) 2 0 s =
     Inr ([DR_in b (DR_reads s), DR_in b (DR_reads s + 1)],
          s\<lparr>DR_reads := DR_reads s + 2,
            accesses := accesses s @
              [Get_DR (DR_in b (DR_reads s)), Get_DR (DR_in b (DR_reads s + 1))]\<rparr>)"
  by (simp add: read_data.simps DR_get_def Let_def contents_def)

lemma getBUSY_bytes: "getBUSY (Register16_of_bytes [x, y]) = bit x 0"
  by (simp add: getBUSY_def Register16_of_bytes_def bit_simps)

lemma poll_Inr:
  assumes "send_read_command b ReadStatusRegister 0 (Some (bytes_of_Register16 v))
     sizeof_statusRegister s = Some r"
  shows "\<exists>k. r = Inr ([DR_in b (DR_reads s), DR_in b (DR_reads s + 1)],
       completed b IndirectRead (DefaultOperatingMode b) ReadStatusRegister 0 0
         (Some (bytes_of_Register16 v)) 2 k s)"
proof -
  let ?call = "send_command_full b IndirectRead (DefaultOperatingMode b) ReadStatusRegister 0 0
    (Some (bytes_of_Register16 v)) 2 s"
  from assms have r: "?call = Some r"
    by (simp add: send_read_command_def sizeof_statusRegister_def)
  have "unat (2 :: size_t) \<le> length (contents (Some (bytes_of_Register16 v)))"
    by (simp add: contents_def bytes_of_Register16_def)
  from send_command_full_no_fault [OF this] r obtain buf s' where r': "r = Inr (buf, s')"
    by (cases r) auto
  from r r' have "buf = [DR_in b (DR_reads s), DR_in b (DR_reads s + 1)]"
    by (auto simp: send_command_full_unfold bytes_of_Register16_def read_data_two programmed_def)
  moreover from r r' send_command_full_Inr [of b IndirectRead _ _ _ _ _ _ s buf s']
  obtain k where "s' = completed b IndirectRead (DefaultOperatingMode b) ReadStatusRegister 0 0
         (Some (bytes_of_Register16 v)) 2 k s" by blast
  ultimately show ?thesis using r' by blast
qed

lemma issued_append: "accesses s' = accesses s @ xs \<Longrightarrow> issued s s' = xs"
  by (simp add: issued_def)

lemma issued_trans:
  assumes "accesses s1 = accesses s @ issued s s1" and "accesses s' = accesses s1 @ issued s1 s'"
  shows "issued s s' = issued s s1 @ issued s1 s'"
    and "accesses s' = accesses s @ issued s s'"
proof -
  from assms have "accesses s' = accesses s @ (issued s s1 @ issued s1 s')" by simp
  then show "issued s s' = issued s s1 @ issued s1 s'" by (rule issued_append)
  with assms show "accesses s' = accesses s @ issued s s'" by simp
qed

lemma accesses_completed:
  "accesses (completed b fm om c address dc data n k s) =
     accesses s @ issued s (completed b fm om c address dc data n k s)"
  by simp

lemma map_shift: "map (\<lambda>k. f (p + k)) [0..<m] = map f [p..<p + m]"
  by (induction m) simp_all

lemma DR_values_transfer [simp]:
  "DR_values (transfer_accesses b fm data n s) =
     (if fm = IndirectRead then map (DR_in b) [DR_reads s..<DR_reads s + unat n] else [])"
  by (simp add: transfer_accesses_def map_shift)

lemma waited_first:
  assumes "\<not> bit (DR_in b (DR_reads s)) 0"
  shows "waited b s 0 (completed b IndirectRead (DefaultOperatingMode b) ReadStatusRegister 0 0
         (Some bs) 2 k s)"
  using assms
  by (simp add: waited_def built_ccr_def status_ccr_def)

lemma waited_step:
  assumes "bit (DR_in b (DR_reads s)) 0"
    and "waited b (completed b IndirectRead (DefaultOperatingMode b) ReadStatusRegister 0 0
         (Some bs) 2 k s) n s'"
  shows "waited b s (Suc n) s'"
proof -
  let ?s1 = "completed b IndirectRead (DefaultOperatingMode b) ReadStatusRegister 0 0
         (Some bs) 2 k s"
  let ?p = "DR_reads s"
  from assms(2) have w:
    "list_all (\<lambda>k. bit (DR_in b (?p + 2 + 2 * k)) 0) [0..<n]"
    "\<not> bit (DR_in b (?p + 2 + 2 * n)) 0"
    "DLR s' = 1" "CCR s' = status_ccr (DefaultOperatingMode b)" "AR s' = AR s"
    "DR_reads s' = ?p + 2 + 2 * (n + 1)" "SR_reads s + (k + 1) + (n + 1) \<le> SR_reads s'"
    "accesses s' = accesses ?s1 @ issued ?s1 s'"
    "transactions (issued ?s1 s') = replicate (n + 1) (status_ccr (DefaultOperatingMode b))"
    "DLR_writes (issued ?s1 s') = replicate (n + 1) 1"
    "AR_writes (issued ?s1 s') = []"
    "DR_values (issued ?s1 s') = map (DR_in b) [?p + 2..<?p + 2 + 2 * (n + 1)]"
    unfolding waited_def by simp_all
  note tr = issued_trans [OF accesses_completed w(8)]
  have 1: "list_all (\<lambda>k. bit (DR_in b (?p + 2 * k)) 0) [0..<Suc n]"
  proof -
    have "bit (DR_in b (?p + 2 * j)) 0" if "j < Suc n" for j
    proof (cases j)
      case 0 with assms(1) show ?thesis by simp
    next
      case (Suc i)
      with that w(1) have "bit (DR_in b (?p + 2 + 2 * i)) 0" by (simp add: list_all_iff)
      with Suc show ?thesis by simp
    qed
    then show ?thesis by (simp add: list_all_iff)
  qed
  have 2: "\<not> bit (DR_in b (?p + 2 * Suc n)) 0" using w(2) by simp
  have 3: "transactions (issued s s') = replicate (Suc n + 1) (status_ccr (DefaultOperatingMode b))"
    by (simp add: tr(1) w(9) built_ccr_def status_ccr_def)
  have 4: "DLR_writes (issued s s') = replicate (Suc n + 1) 1"
    by (simp add: tr(1) w(10))
  have 5: "AR_writes (issued s s') = []"
    by (simp add: tr(1) w(11))
  have "[?p..<?p + 2 + 2 * (n + 1)] = [?p..<?p + 2] @ [?p + 2..<?p + 2 + 2 * (n + 1)]"
    by (rule upt_add_eq_append) simp
  moreover have "?p + 2 * (Suc n + 1) = ?p + 2 + 2 * (n + 1)" by simp
  ultimately have 6: "DR_values (issued s s') = map (DR_in b) [?p..<?p + 2 * (Suc n + 1)]"
    by (simp add: tr(1) w(12) del: upt_Suc)
  from w(7) have 7: "SR_reads s + (Suc n + 1) \<le> SR_reads s'" by simp
  from w(6) have 8: "DR_reads s' = ?p + 2 * (Suc n + 1)" by simp
  show ?thesis
    unfolding waited_def using 1 2 w(3,4,5) 8 7 tr(2) 3 4 5 6 by blast
qed

lemma wait_loop_Some:
  assumes "wait_loop b v s = Some r"
  shows "\<exists>n s'. r = Inr s' \<and> waited b s n s'"
proof -
  define P where "P = (\<lambda>(b::board) (v::u16) (s::regs) (r::fault + regs).
      \<exists>n s'. r = Inr s' \<and> waited b s n s')"
  have "P b v s r"
  proof (rule wait_loop.raw_induct [where P = P, OF _ assms])
    fix f b v s r
    assume IH: "\<And>b v s r. f b v s = Some r \<Longrightarrow> P b v s r"
      and eq: "(case send_read_command b ReadStatusRegister 0 (Some (bytes_of_Register16 v))
             sizeof_statusRegister s of
        None \<Rightarrow> None
      | Some (Inl e) \<Rightarrow> Some (Inl e)
      | Some (Inr (buf, s')) \<Rightarrow>
          if getBUSY (Register16_of_bytes buf) then f b (Register16_of_bytes buf) s'
          else Some (Inr s')) = Some r"
    let ?poll = "send_read_command b ReadStatusRegister 0 (Some (bytes_of_Register16 v))
             sizeof_statusRegister s"
    from eq obtain r1 where r1: "?poll = Some r1" by (cases ?poll) auto
    from poll_Inr [OF r1] obtain k where
      k: "r1 = Inr ([DR_in b (DR_reads s), DR_in b (DR_reads s + 1)],
       completed b IndirectRead (DefaultOperatingMode b) ReadStatusRegister 0 0
         (Some (bytes_of_Register16 v)) 2 k s)" ..
    let ?s1 = "completed b IndirectRead (DefaultOperatingMode b) ReadStatusRegister 0 0
         (Some (bytes_of_Register16 v)) 2 k s"
    show "P b v s r"
    proof (cases "bit (DR_in b (DR_reads s)) 0")
      case False
      with eq r1 k have "r = Inr ?s1" by (simp add: getBUSY_bytes)
      with waited_first [OF False] show ?thesis unfolding P_def by blast
    next
      case True
      with eq r1 k have "f b (Register16_of_bytes [DR_in b (DR_reads s), DR_in b (DR_reads s + 1)])
          ?s1 = Some r"
        by (simp add: getBUSY_bytes)
      from IH [OF this] obtain n s' where "r = Inr s'" "waited b ?s1 n s'"
        unfolding P_def by blast
      with waited_step [OF True] show ?thesis unfolding P_def by blast
    qed
  qed
  then show ?thesis unfolding P_def .
qed

lemma wait_loop_None:
  assumes "\<forall>n. bit (DR_in b (DR_reads s + 2 * n)) 0"
  shows "wait_loop b v s = None"
proof (rule ccontr)
  assume "wait_loop b v s \<noteq> None"
  then obtain r where "wait_loop b v s = Some r" by blast
  from wait_loop_Some [OF this] obtain n s' where "waited b s n s'" by blast
  with assms show False by (simp add: waited_def)
qed

lemma wait_loop_returns:
  assumes "\<forall>i. \<exists>j\<ge>i. \<not> SR_BUSY b j" and "\<not> bit (DR_in b (DR_reads s + 2 * n)) 0"
  shows "\<exists>s'. wait_loop b v s = Some (Inr s')"
  using assms(2)
proof (induction n arbitrary: s v)
  case 0
  let ?poll = "send_read_command b ReadStatusRegister 0 (Some (bytes_of_Register16 v))
             sizeof_statusRegister s"
  from assms(1) obtain j where "j \<ge> SR_reads s" "\<not> SR_BUSY b j" by blast
  then have "\<not> SR_BUSY b (SR_reads s + (j - SR_reads s))" by simp
  then have "\<exists>k. \<not> SR_BUSY b (SR_reads s + k)" ..
  then have "\<exists>buf s'. send_command_full b IndirectRead (DefaultOperatingMode b)
      ReadStatusRegister 0 0 (Some (bytes_of_Register16 v)) 2 s = Some (Inr (buf, s'))"
    by (intro send_command_full_returns) (simp_all add: contents_def bytes_of_Register16_def)
  then obtain r1 where r1: "?poll = Some r1"
    by (auto simp: send_read_command_def sizeof_statusRegister_def)
  from poll_Inr [OF r1] obtain k where
    k: "r1 = Inr ([DR_in b (DR_reads s), DR_in b (DR_reads s + 1)],
       completed b IndirectRead (DefaultOperatingMode b) ReadStatusRegister 0 0
         (Some (bytes_of_Register16 v)) 2 k s)" ..
  from 0 r1 k show ?case by (subst wait_loop.simps) (simp add: getBUSY_bytes)
next
  case (Suc n)
  let ?poll = "send_read_command b ReadStatusRegister 0 (Some (bytes_of_Register16 v))
             sizeof_statusRegister s"
  from assms(1) obtain j where "j \<ge> SR_reads s" "\<not> SR_BUSY b j" by blast
  then have "\<not> SR_BUSY b (SR_reads s + (j - SR_reads s))" by simp
  then have "\<exists>k. \<not> SR_BUSY b (SR_reads s + k)" ..
  then have "\<exists>buf s'. send_command_full b IndirectRead (DefaultOperatingMode b)
      ReadStatusRegister 0 0 (Some (bytes_of_Register16 v)) 2 s = Some (Inr (buf, s'))"
    by (intro send_command_full_returns) (simp_all add: contents_def bytes_of_Register16_def)
  then obtain r1 where r1: "?poll = Some r1"
    by (auto simp: send_read_command_def sizeof_statusRegister_def)
  from poll_Inr [OF r1] obtain k where
    k: "r1 = Inr ([DR_in b (DR_reads s), DR_in b (DR_reads s + 1)],
       completed b IndirectRead (DefaultOperatingMode b) ReadStatusRegister 0 0
         (Some (bytes_of_Register16 v)) 2 k s)" ..
  let ?s1 = "completed b IndirectRead (DefaultOperatingMode b) ReadStatusRegister 0 0
         (Some (bytes_of_Register16 v)) 2 k s"
  from Suc.prems have "\<not> bit (DR_in b (DR_reads ?s1 + 2 * n)) 0" by simp
  from Suc.IH [OF this] obtain s' where
    "wait_loop b (Register16_of_bytes [DR_in b (DR_reads s), DR_in b (DR_reads s + 1)]) ?s1 =
       Some (Inr s')" by blast
  with r1 k show ?case by (subst wait_loop.simps) (simp add: getBUSY_bytes)
qed

subsection \<open>The operations\<close>

lemma and_then_Some:
  assumes "and_then m f = Some r"
  shows "(\<exists>e. m = Some (Inl e) \<and> r = Inl e) \<or> (\<exists>x. m = Some (Inr x) \<and> f x = Some r)"
proof (cases m)
  case None
  with assms show ?thesis by simp
next
  case (Some a)
  with assms show ?thesis by (cases a) simp_all
qed

lemma command_Some:
  assumes "and_then (send_command_full b IndirectWrite om c 0 0 None 0 s)
     (\<lambda>(buf, s'). Some (Inr s')) = Some r"
  shows "\<exists>k. r = Inr (completed b IndirectWrite om c 0 0 None 0 k s)"
proof -
  let ?call = "send_command_full b IndirectWrite om c 0 0 None 0 s"
  have "?call \<noteq> Some (Inl e)" for e
    by (rule send_command_full_no_fault) (simp add: contents_def)
  with and_then_Some [OF assms] obtain buf s' where call: "?call = Some (Inr (buf, s'))"
    and r: "r = Inr s'" by auto
  from send_command_full_Inr [OF call] r show ?thesis by blast
qed

lemma send_command_Some:
  "send_command b c s = Some r \<Longrightarrow>
     \<exists>k. r = Inr (completed b IndirectWrite (DefaultOperatingMode b) c 0 0 None 0 k s)"
  unfolding send_command_def by (rule command_Some)

lemma send_command_single_Some:
  "send_command_single b c s = Some r \<Longrightarrow>
     \<exists>k. r = Inr (completed b IndirectWrite Single c 0 0 None 0 k s)"
  unfolding send_command_single_def by (rule command_Some)

lemma set_as_memory_mapped_eq:
  "set_as_memory_mapped b s =
     Some (Inr (completed b MemoryMapped (DefaultOperatingMode b) ReadData 0 0 None 0 0 s))"
  by (simp add: set_as_memory_mapped_def send_command_full_unfold completed_def programmed_def
        transfer_accesses_def busy_accesses_def)

lemma wait_Some: "wait b s = Some r \<Longrightarrow> \<exists>n s'. r = Inr s' \<and> waited b s n s'"
  unfolding wait_def by (rule wait_loop_Some)

lemma built_ccr_simps [simp]:
  "built_ccr IndirectWrite om c 0 0 None = command_ccr om c"
  "built_ccr MemoryMapped om ReadData 0 0 None = memory_mapped_ccr om"
  "built_ccr IndirectRead om ReadStatusRegister 0 0 (Some bs) = status_ccr om"
  by (simp_all add: built_ccr_def command_ccr_def memory_mapped_ccr_def status_ccr_def)

text \<open>Write enable, wait, memory mapped: what \<open>EraseSector\<close> and \<open>WriteMemory\<close> run.\<close>

lemma enable_wait_map_Some:
  assumes "and_then (send_command b WriteEnable s) (\<lambda>s.
     and_then (wait b s) (\<lambda>s. set_as_memory_mapped b s)) = Some r"
  shows "\<exists>n s'. r = Inr s' \<and> CCR s' = memory_mapped_ccr (DefaultOperatingMode b) \<and>
     accesses s' = accesses s @ issued s s' \<and>
     transactions (issued s s') =
       [command_ccr (DefaultOperatingMode b) WriteEnable] @
       replicate (n + 1) (status_ccr (DefaultOperatingMode b)) @
       [memory_mapped_ccr (DefaultOperatingMode b)] \<and>
     take 2 (issued s s') = [Set_DLR 0, Set_CCR (command_ccr (DefaultOperatingMode b) WriteEnable)]"
proof -
  let ?om = "DefaultOperatingMode b"
  from and_then_Some [OF assms] send_command_Some [of b WriteEnable s]
  obtain k1 where rest: "and_then (wait b (completed b IndirectWrite ?om WriteEnable 0 0 None 0 k1 s))
      (\<lambda>s. set_as_memory_mapped b s) = Some r"
    by auto
  let ?s1 = "completed b IndirectWrite ?om WriteEnable 0 0 None 0 k1 s"
  from and_then_Some [OF rest] wait_Some [of b ?s1]
  obtain n s2 where w: "waited b ?s1 n s2" and r: "set_as_memory_mapped b s2 = Some r"
    by auto
  let ?s3 = "completed b MemoryMapped ?om ReadData 0 0 None 0 0 s2"
  from r have r3: "r = Inr ?s3" by (simp add: set_as_memory_mapped_eq)
  from w have a2: "accesses s2 = accesses ?s1 @ issued ?s1 s2"
    and t2: "transactions (issued ?s1 s2) = replicate (n + 1) (status_ccr ?om)"
    unfolding waited_def by simp_all
  note i2 = issued_trans [OF accesses_completed a2]
  note i3 = issued_trans [OF i2(2) accesses_completed]

  have "transactions (issued s ?s3) =
       [command_ccr ?om WriteEnable] @ replicate (n + 1) (status_ccr ?om) @ [memory_mapped_ccr ?om]"
    unfolding i3(1) i2(1) transactions_append t2 by simp
  moreover have "take 2 (issued s ?s3) = [Set_DLR 0, Set_CCR (command_ccr ?om WriteEnable)]"
    unfolding i3(1) i2(1) by simp
  moreover have "CCR ?s3 = memory_mapped_ccr ?om" by simp
  ultimately show ?thesis using r3 i3(2) by blast
qed

lemma MassErase_Some:
  assumes "MassErase b s = Some r"
  shows "\<exists>n s'. r = Inr s' \<and> CCR s' = memory_mapped_ccr (DefaultOperatingMode b) \<and>
     accesses s' = accesses s @ issued s s' \<and>
     transactions (issued s s') =
       [command_ccr (DefaultOperatingMode b) WriteEnable,
        command_ccr (DefaultOperatingMode b) ChipErase] @
       replicate (n + 1) (status_ccr (DefaultOperatingMode b)) @
       [memory_mapped_ccr (DefaultOperatingMode b)]"
proof -
  let ?om = "DefaultOperatingMode b"
  from and_then_Some [OF assms [unfolded MassErase_def]] send_command_Some [of b WriteEnable s]
  obtain k1 where rest: "and_then (send_command b ChipErase
        (completed b IndirectWrite ?om WriteEnable 0 0 None 0 k1 s)) (\<lambda>s.
      and_then (wait b s) (\<lambda>s. set_as_memory_mapped b s)) = Some r"
    by auto
  let ?s1 = "completed b IndirectWrite ?om WriteEnable 0 0 None 0 k1 s"
  from and_then_Some [OF rest] send_command_Some [of b ChipErase ?s1]
  obtain k2 where rest2: "and_then (wait b (completed b IndirectWrite ?om ChipErase 0 0 None 0 k2 ?s1))
      (\<lambda>s. set_as_memory_mapped b s) = Some r"
    by auto
  let ?s2 = "completed b IndirectWrite ?om ChipErase 0 0 None 0 k2 ?s1"
  from and_then_Some [OF rest2] wait_Some [of b ?s2]
  obtain n s3 where w: "waited b ?s2 n s3" and r: "set_as_memory_mapped b s3 = Some r"
    by auto
  let ?s4 = "completed b MemoryMapped ?om ReadData 0 0 None 0 0 s3"
  from r have r4: "r = Inr ?s4" by (simp add: set_as_memory_mapped_eq)
  from w have a3: "accesses s3 = accesses ?s2 @ issued ?s2 s3"
    and t3: "transactions (issued ?s2 s3) = replicate (n + 1) (status_ccr ?om)"
    unfolding waited_def by simp_all
  note i2 = issued_trans [OF accesses_completed [of b _ _ _ _ _ _ _ k1 s] accesses_completed [of b _ _ _ _ _ _ _ k2 ?s1]]
  note i3 = issued_trans [OF i2(2) a3]
  note i4 = issued_trans [OF i3(2) accesses_completed]
  have "transactions (issued s ?s4) =
       [command_ccr ?om WriteEnable, command_ccr ?om ChipErase] @
       replicate (n + 1) (status_ccr ?om) @ [memory_mapped_ccr ?om]"
    unfolding i4(1) i3(1) i2(1) transactions_append t3 by simp
  moreover have "CCR ?s4 = memory_mapped_ccr ?om" by simp
  ultimately show ?thesis using r4 i4(2) by blast
qed

lemma EraseSector_Some:
  assumes "EraseSector b s = Some r"
  shows "\<exists>n s'. r = Inr s' \<and> CCR s' = memory_mapped_ccr (DefaultOperatingMode b) \<and>
     accesses s' = accesses s @ issued s s' \<and>
     transactions (issued s s') =
       [command_ccr (DefaultOperatingMode b) WriteEnable] @
       replicate (n + 1) (status_ccr (DefaultOperatingMode b)) @
       [memory_mapped_ccr (DefaultOperatingMode b)] \<and>
     take 2 (issued s s') = [Set_DLR 0, Set_CCR (command_ccr (DefaultOperatingMode b) WriteEnable)]"
  using assms unfolding EraseSector_def by (rule enable_wait_map_Some)

lemma WriteMemory_Some:
  assumes "WriteMemory b source destination length' s = Some r"
  shows "\<exists>n s'. r = Inr s' \<and> CCR s' = memory_mapped_ccr (DefaultOperatingMode b) \<and>
     accesses s' = accesses s @ issued s s' \<and>
     transactions (issued s s') =
       [command_ccr (DefaultOperatingMode b) WriteEnable] @
       replicate (n + 1) (status_ccr (DefaultOperatingMode b)) @
       [memory_mapped_ccr (DefaultOperatingMode b)] \<and>
     take 2 (issued s s') = [Set_DLR 0, Set_CCR (command_ccr (DefaultOperatingMode b) WriteEnable)]"
  using assms unfolding WriteMemory_def by (rule enable_wait_map_Some)

lemma FMODE_memory_mapped [simp]: "FMODE (memory_mapped_ccr om) = Some MemoryMapped"
  by (simp add: memory_mapped_ccr_def)

lemma initGPIO_frame [simp]:
  "accesses (initGPIO b s) = accesses s" "SR_reads (initGPIO b s) = SR_reads s"
proof -
  have "accesses (foldl (\<lambda>s g.
        s\<lparr>MODER := (MODER s)((group g, pin g) \<mapsto> AlternateFunction),
          AFR := (AFR s)((group g, pin g) \<mapsto> (if pin g = 6 then AF10 else AF9))\<rparr>) s gs) =
      accesses s \<and>
    SR_reads (foldl (\<lambda>s g.
        s\<lparr>MODER := (MODER s)((group g, pin g) \<mapsto> AlternateFunction),
          AFR := (AFR s)((group g, pin g) \<mapsto> (if pin g = 6 then AF10 else AF9))\<rparr>) s gs) =
      SR_reads s" for gs :: "GPIOPin list"
    by (induction gs arbitrary: s) simp_all
  then show "accesses (initGPIO b s) = accesses s" "SR_reads (initGPIO b s) = SR_reads s"
    by (simp_all add: initGPIO_def)
qed

lemma initQSPI_frame [simp]:
  "accesses (initQSPI b s) = accesses s" "SR_reads (initQSPI b s) = SR_reads s"
  by (simp_all add: initQSPI_def)

lemma issued_cong: "accesses s = accesses t \<Longrightarrow> issued s s' = issued t s'"
  by (simp add: issued_def)

lemma initChip_Quad_Some:
  assumes "DefaultOperatingMode b = Quad" and "initChip b s = Some r"
  shows "\<exists>s'. r = Inr s' \<and> CCR s' = memory_mapped_ccr Quad \<and>
     transactions (issued s s') = [command_ccr Single EnableQPI, memory_mapped_ccr Quad]"
proof -
  from assms have "and_then (send_command_single b EnableQPI s) (set_as_memory_mapped b) = Some r"
    by (simp add: initChip_def)
  from and_then_Some [OF this] send_command_single_Some [of b EnableQPI s]
  obtain k where r: "set_as_memory_mapped b (completed b IndirectWrite Single EnableQPI 0 0 None 0 k s)
      = Some r"
    by auto
  let ?s1 = "completed b IndirectWrite Single EnableQPI 0 0 None 0 k s"
  let ?s2 = "completed b MemoryMapped Quad ReadData 0 0 None 0 0 ?s1"
  from r assms(1) have r2: "r = Inr ?s2" by (simp add: set_as_memory_mapped_eq)
  note i = issued_trans [OF accesses_completed [of b _ _ _ _ _ _ _ k s]
      accesses_completed [of b _ _ _ _ _ _ _ 0 ?s1]]
  have "transactions (issued s ?s2) = [command_ccr Single EnableQPI, memory_mapped_ccr Quad]"
    unfolding i(1) by simp
  moreover have "CCR ?s2 = memory_mapped_ccr Quad" by simp
  ultimately show ?thesis using r2 by blast
qed

lemma initChip_Quad_returns:
  assumes "DefaultOperatingMode b = Quad" and "\<not> SR_BUSY b (SR_reads s + i)"
  shows "\<exists>s'. initChip b s = Some (Inr s')"
proof -
  have "\<exists>buf s'. send_command_full b IndirectWrite Single EnableQPI 0 0 None 0 s =
      Some (Inr (buf, s'))"
    using assms(2) by (intro send_command_full_returns) (auto simp: contents_def)
  then obtain buf s1 where "send_command_full b IndirectWrite Single EnableQPI 0 0 None 0 s =
      Some (Inr (buf, s1))" by blast
  with assms(1) show ?thesis
    by (simp add: initChip_def send_command_single_def set_as_memory_mapped_eq)
qed

section \<open>The claims\<close>

text \<open>
  C1. Whenever \<open>MassErase\<close>, \<open>EraseSector\<close> or \<open>WriteMemory\<close> returns, it has returned
  normally, the controller's functional mode is \<open>MemoryMapped\<close>, and the transaction that
  set it is the call's last. (The code has no failing exit; a call whose busy loop spins
  for ever does not return.)
\<close>

theorem mode_restored:
  "(MassErase b s = Some r \<longrightarrow>
      (\<exists>s'. r = Inr s' \<and> FMODE (CCR s') = Some MemoryMapped \<and>
         FMODE (last (transactions (issued s s'))) = Some MemoryMapped)) \<and>
   (EraseSector b s = Some r \<longrightarrow>
      (\<exists>s'. r = Inr s' \<and> FMODE (CCR s') = Some MemoryMapped \<and>
         FMODE (last (transactions (issued s s'))) = Some MemoryMapped)) \<and>
   (WriteMemory b source destination length' s = Some r \<longrightarrow>
      (\<exists>s'. r = Inr s' \<and> FMODE (CCR s') = Some MemoryMapped \<and>
         FMODE (last (transactions (issued s s'))) = Some MemoryMapped))"
proof (intro conjI impI)
  assume "MassErase b s = Some r"
  from MassErase_Some [OF this] obtain n s' where "r = Inr s'"
    "CCR s' = memory_mapped_ccr (DefaultOperatingMode b)"
    "transactions (issued s s') =
       [command_ccr (DefaultOperatingMode b) WriteEnable,
        command_ccr (DefaultOperatingMode b) ChipErase] @
       replicate (n + 1) (status_ccr (DefaultOperatingMode b)) @
       [memory_mapped_ccr (DefaultOperatingMode b)]"
    by blast
  then show "\<exists>s'. r = Inr s' \<and> FMODE (CCR s') = Some MemoryMapped \<and>
         FMODE (last (transactions (issued s s'))) = Some MemoryMapped"
    by simp
next
  assume "EraseSector b s = Some r"
  from EraseSector_Some [OF this] obtain n s' where "r = Inr s'"
    "CCR s' = memory_mapped_ccr (DefaultOperatingMode b)"
    "transactions (issued s s') =
       [command_ccr (DefaultOperatingMode b) WriteEnable] @
       replicate (n + 1) (status_ccr (DefaultOperatingMode b)) @
       [memory_mapped_ccr (DefaultOperatingMode b)]"
    by blast
  then show "\<exists>s'. r = Inr s' \<and> FMODE (CCR s') = Some MemoryMapped \<and>
         FMODE (last (transactions (issued s s'))) = Some MemoryMapped"
    by simp
next
  assume "WriteMemory b source destination length' s = Some r"
  from WriteMemory_Some [OF this] obtain n s' where "r = Inr s'"
    "CCR s' = memory_mapped_ccr (DefaultOperatingMode b)"
    "transactions (issued s s') =
       [command_ccr (DefaultOperatingMode b) WriteEnable] @
       replicate (n + 1) (status_ccr (DefaultOperatingMode b)) @
       [memory_mapped_ccr (DefaultOperatingMode b)]"
    by blast
  then show "\<exists>s'. r = Inr s' \<and> FMODE (CCR s') = Some MemoryMapped \<and>
         FMODE (last (transactions (issued s s'))) = Some MemoryMapped"
    by simp
qed

theorem mode_restored_witness:
  "(\<exists>s'. MassErase busy_chip_board idle_regs = Some (Inr s') \<and>
      FMODE (CCR s') = Some MemoryMapped) \<and>
   (\<exists>s'. EraseSector busy_chip_board idle_regs = Some (Inr s') \<and>
      FMODE (CCR s') = Some MemoryMapped) \<and>
   (\<exists>s'. WriteMemory busy_chip_board [1, 2] 0 8 idle_regs = Some (Inr s') \<and>
      FMODE (CCR s') = Some MemoryMapped)"
proof (intro conjI)
  have "map_option isl (MassErase busy_chip_board idle_regs) = Some False" by code_simp
  then obtain r where r: "MassErase busy_chip_board idle_regs = Some r" by auto
  with mode_restored [of busy_chip_board idle_regs r "[1, 2]" 0 8]
  show "\<exists>s'. MassErase busy_chip_board idle_regs = Some (Inr s') \<and>
      FMODE (CCR s') = Some MemoryMapped" by auto
next
  have "map_option isl (EraseSector busy_chip_board idle_regs) = Some False" by code_simp
  then obtain r where r: "EraseSector busy_chip_board idle_regs = Some r" by auto
  with mode_restored [of busy_chip_board idle_regs r "[1, 2]" 0 8]
  show "\<exists>s'. EraseSector busy_chip_board idle_regs = Some (Inr s') \<and>
      FMODE (CCR s') = Some MemoryMapped" by auto
next
  have "map_option isl (WriteMemory busy_chip_board [1, 2] 0 8 idle_regs) = Some False"
    by code_simp
  then obtain r where r: "WriteMemory busy_chip_board [1, 2] 0 8 idle_regs = Some r" by auto
  with mode_restored [of busy_chip_board idle_regs r "[1, 2]" 0 8]
  show "\<exists>s'. WriteMemory busy_chip_board [1, 2] 0 8 idle_regs = Some (Inr s') \<and>
      FMODE (CCR s') = Some MemoryMapped" by auto
qed

text \<open>
  C2 as stated fails: \<open>wait\<close> takes no bound and has no Timeout result. Against a flash
  whose busy bit never clears it never returns.
\<close>

theorem wait_never_returns:
  "wait stuck_chip_board idle_regs = None"
  unfolding wait_def by (rule wait_loop_None) (simp add: stuck_chip_board_def)

text \<open>
  C2, as the code has it. \<open>wait\<close> polls without a bound. When it returns it has returned
  normally, after exactly \<open>n + 1\<close> status reads, of which the first \<open>n\<close> showed the busy
  bit set and the last showed it clear. When the busy bit is set at every poll it never
  returns. When the controller's own BUSY flag always falls again and some poll shows the
  busy bit clear, it returns.
\<close>

theorem wait_returns_when_ready:
  "(wait b s = Some r \<longrightarrow>
      (\<exists>n s'. r = Inr s' \<and>
         (\<forall>k<n. bit (DR_in b (DR_reads s + 2 * k)) 0) \<and>
         \<not> bit (DR_in b (DR_reads s + 2 * n)) 0 \<and>
         length (transactions (issued s s')) = n + 1 \<and>
         DR_reads s' = DR_reads s + 2 * (n + 1))) \<and>
   ((\<forall>n. bit (DR_in b (DR_reads s + 2 * n)) 0) \<longrightarrow> wait b s = None) \<and>
   ((\<forall>i. \<exists>j\<ge>i. \<not> SR_BUSY b j) \<and> (\<exists>n. \<not> bit (DR_in b (DR_reads s + 2 * n)) 0) \<longrightarrow>
      (\<exists>s'. wait b s = Some (Inr s')))"
proof (intro conjI impI)
  assume "wait b s = Some r"
  from wait_Some [OF this] obtain n s' where r: "r = Inr s'" and w: "waited b s n s'" by blast
  from w have "\<forall>k<n. bit (DR_in b (DR_reads s + 2 * k)) 0"
    "\<not> bit (DR_in b (DR_reads s + 2 * n)) 0"
    "length (transactions (issued s s')) = n + 1"
    "DR_reads s' = DR_reads s + 2 * (n + 1)"
    unfolding waited_def by (simp_all add: list_all_iff)
  with r show "\<exists>n s'. r = Inr s' \<and>
         (\<forall>k<n. bit (DR_in b (DR_reads s + 2 * k)) 0) \<and>
         \<not> bit (DR_in b (DR_reads s + 2 * n)) 0 \<and>
         length (transactions (issued s s')) = n + 1 \<and>
         DR_reads s' = DR_reads s + 2 * (n + 1)"
    by blast
next
  assume "\<forall>n. bit (DR_in b (DR_reads s + 2 * n)) 0"
  then show "wait b s = None" unfolding wait_def by (rule wait_loop_None)
next
  assume a: "(\<forall>i. \<exists>j\<ge>i. \<not> SR_BUSY b j) \<and> (\<exists>n. \<not> bit (DR_in b (DR_reads s + 2 * n)) 0)"
  then obtain n where "\<not> bit (DR_in b (DR_reads s + 2 * n)) 0" by blast
  with a show "\<exists>s'. wait b s = Some (Inr s')"
    unfolding wait_def by (intro wait_loop_returns) blast+
qed

theorem wait_returns_when_ready_witness:
  "(\<exists>s'. wait busy_chip_board idle_regs = Some (Inr s') \<and>
      length (transactions (issued idle_regs s')) = 3 \<and> DR_reads s' = 6) \<and>
   wait (stuck_chip_board\<lparr>SR_BUSY := (\<lambda>n. even n)\<rparr>) idle_regs = None"
proof
  let ?w = "wait busy_chip_board idle_regs"
  have "(\<forall>i. \<exists>j\<ge>i. \<not> SR_BUSY busy_chip_board j) \<and>
      (\<exists>n. \<not> bit (DR_in busy_chip_board (DR_reads idle_regs + 2 * n)) 0)"
    by (auto simp: busy_chip_board_def intro: exI [of _ 2])
  with wait_returns_when_ready [of busy_chip_board idle_regs]
  obtain s' where s': "?w = Some (Inr s')" by blast
  have ev: "map_option (map_sum id (\<lambda>s'. (length (transactions (issued idle_regs s')), DR_reads s')))
      ?w = Some (Inr (3, 6))"
    by code_simp
  with s' show "\<exists>s'. ?w = Some (Inr s') \<and>
      length (transactions (issued idle_regs s')) = 3 \<and> DR_reads s' = 6"
    by simp
next
  have "\<forall>n. bit (DR_in (stuck_chip_board\<lparr>SR_BUSY := (\<lambda>n. even n)\<rparr>) (DR_reads idle_regs + 2 * n)) 0"
    by (simp add: stuck_chip_board_def)
  with wait_returns_when_ready [of "stuck_chip_board\<lparr>SR_BUSY := (\<lambda>n. even n)\<rparr>" idle_regs]
  show "wait (stuck_chip_board\<lparr>SR_BUSY := (\<lambda>n. even n)\<rparr>) idle_regs = None" by blast
qed

text \<open>
  C3 against the code: \<open>WriteMemory\<close> on a 640-byte buffer (2.5 times a 256-byte page).
  The code issues one \<open>WriteEnable\<close>, polls the status register and returns to
  \<open>MemoryMapped\<close> mode. It issues no \<open>PageProgram\<close> and writes no byte to the data
  register.
\<close>

theorem WriteMemory_programs_nothing:
  "map_option (map_sum id (map INSTRUCTION \<circ> transactions \<circ> accesses))
     (WriteMemory ready_board (replicate 160 0xFFFFFFFF) 0 640 idle_regs) =
   Some (Inr [Some WriteEnable, Some ReadStatusRegister, Some ReadData])"
  by code_simp

text \<open>
  C4 against the code: \<open>EraseSector\<close> (it takes no sector address) issues \<open>WriteEnable\<close>,
  polls the status register and returns to \<open>MemoryMapped\<close> mode. It issues no
  \<open>SectorErase\<close>, and writes no address.
\<close>

theorem EraseSector_erases_nothing:
  "map_option (map_sum id (\<lambda>s'. (map INSTRUCTION (transactions (accesses s')),
       AR_writes (accesses s'))))
     (EraseSector ready_board idle_regs) =
   Some (Inr ([Some WriteEnable, Some ReadStatusRegister, Some ReadData], []))"
  by code_simp




text \<open>
  C6. Built for \<open>Quad\<close>, \<open>init\<close> (when it returns, which it does as soon as the
  controller's BUSY flag clears) has issued exactly two transactions: first \<open>EnableQPI\<close>
  as an indirect write with the instruction on a \<open>Single\<close> line and no other phase, then
  the \<open>Quad\<close>-width \<open>ReadData\<close> that enters \<open>MemoryMapped\<close> mode, in which it ends. Built
  for any other mode, \<open>init\<close> always returns, having issued only the transaction that
  enters \<open>MemoryMapped\<close> mode: no \<open>EnableQPI\<close>.
\<close>

theorem init_enables_QPI_once:
  "(DefaultOperatingMode b = Quad \<longrightarrow>
      (init b s = Some r \<longrightarrow>
         (\<exists>s'. r = Inr s' \<and>
            transactions (issued s s') =
              [\<lparr>FMODE = Some IndirectWrite, DMODE = None, DCYC = 0, ADMODE = None,
                 ADSIZE = None, IMODE = Some Single, INSTRUCTION = Some EnableQPI\<rparr>,
               \<lparr>FMODE = Some MemoryMapped, DMODE = Some Quad, DCYC = 0, ADMODE = Some Quad,
                 ADSIZE = Some ThreeBytes, IMODE = Some Quad, INSTRUCTION = Some ReadData\<rparr>] \<and>
            FMODE (CCR s') = Some MemoryMapped)) \<and>
      ((\<exists>i. \<not> SR_BUSY b (SR_reads s + i)) \<longrightarrow> (\<exists>s'. init b s = Some (Inr s')))) \<and>
   (DefaultOperatingMode b \<noteq> Quad \<longrightarrow>
      (\<exists>s'. init b s = Some (Inr s') \<and>
         transactions (issued s s') =
           [\<lparr>FMODE = Some MemoryMapped, DMODE = Some (DefaultOperatingMode b), DCYC = 0,
              ADMODE = Some (DefaultOperatingMode b), ADSIZE = Some ThreeBytes,
              IMODE = Some (DefaultOperatingMode b), INSTRUCTION = Some ReadData\<rparr>] \<and>
         FMODE (CCR s') = Some MemoryMapped))"
proof (intro conjI impI)
  let ?s0 = "initQSPI b (initGPIO b s)"
  assume q: "DefaultOperatingMode b = Quad" and "init b s = Some r"
  then have "initChip b ?s0 = Some r" by (simp add: init_def)
  from initChip_Quad_Some [OF q this] obtain s' where "r = Inr s'"
    "CCR s' = memory_mapped_ccr Quad"
    "transactions (issued ?s0 s') = [command_ccr Single EnableQPI, memory_mapped_ccr Quad]"
    by blast
  moreover have "issued ?s0 s' = issued s s'" by (rule issued_cong) simp
  ultimately show "\<exists>s'. r = Inr s' \<and>
            transactions (issued s s') =
              [\<lparr>FMODE = Some IndirectWrite, DMODE = None, DCYC = 0, ADMODE = None,
                 ADSIZE = None, IMODE = Some Single, INSTRUCTION = Some EnableQPI\<rparr>,
               \<lparr>FMODE = Some MemoryMapped, DMODE = Some Quad, DCYC = 0, ADMODE = Some Quad,
                 ADSIZE = Some ThreeBytes, IMODE = Some Quad, INSTRUCTION = Some ReadData\<rparr>] \<and>
            FMODE (CCR s') = Some MemoryMapped"
    by (simp add: command_ccr_def memory_mapped_ccr_def)
next
  let ?s0 = "initQSPI b (initGPIO b s)"
  assume q: "DefaultOperatingMode b = Quad" and "\<exists>i. \<not> SR_BUSY b (SR_reads s + i)"
  then obtain i where "\<not> SR_BUSY b (SR_reads ?s0 + i)" by auto
  from initChip_Quad_returns [OF q this] show "\<exists>s'. init b s = Some (Inr s')"
    by (simp add: init_def)
next
  let ?s0 = "initQSPI b (initGPIO b s)"
  let ?s' = "completed b MemoryMapped (DefaultOperatingMode b) ReadData 0 0 None 0 0 ?s0"
  assume "DefaultOperatingMode b \<noteq> Quad"
  then have "init b s = Some (Inr ?s')"
    by (simp add: init_def initChip_def set_as_memory_mapped_eq)
  moreover have "issued s ?s' = issued ?s0 ?s'" by (rule issued_cong) simp
  then have "transactions (issued s ?s') = [memory_mapped_ccr (DefaultOperatingMode b)]"
    by simp
  ultimately show "\<exists>s'. init b s = Some (Inr s') \<and>
         transactions (issued s s') =
           [\<lparr>FMODE = Some MemoryMapped, DMODE = Some (DefaultOperatingMode b), DCYC = 0,
              ADMODE = Some (DefaultOperatingMode b), ADSIZE = Some ThreeBytes,
              IMODE = Some (DefaultOperatingMode b), INSTRUCTION = Some ReadData\<rparr>] \<and>
         FMODE (CCR s') = Some MemoryMapped"
    by (simp add: memory_mapped_ccr_def)
qed

theorem init_enables_QPI_once_witness:
  "(\<exists>s'. init quad_board idle_regs = Some (Inr s') \<and>
      map INSTRUCTION (transactions (issued idle_regs s')) = [Some EnableQPI, Some ReadData] \<and>
      map IMODE (transactions (issued idle_regs s')) = [Some Single, Some Quad] \<and>
      FMODE (CCR s') = Some MemoryMapped) \<and>
   (\<exists>s'. init ready_board idle_regs = Some (Inr s') \<and>
      map INSTRUCTION (transactions (issued idle_regs s')) = [Some ReadData] \<and>
      FMODE (CCR s') = Some MemoryMapped)"
proof
  have q: "DefaultOperatingMode quad_board = Quad" by (simp add: quad_board_def)
  have "\<exists>i. \<not> SR_BUSY quad_board (SR_reads idle_regs + i)"
    by (rule exI [of _ 1]) (simp add: quad_board_def)
  with q init_enables_QPI_once [of quad_board idle_regs]
  obtain s' where s': "init quad_board idle_regs = Some (Inr s')" by blast
  with q init_enables_QPI_once [of quad_board idle_regs "Inr s'"]
  show "\<exists>s'. init quad_board idle_regs = Some (Inr s') \<and>
      map INSTRUCTION (transactions (issued idle_regs s')) = [Some EnableQPI, Some ReadData] \<and>
      map IMODE (transactions (issued idle_regs s')) = [Some Single, Some Quad] \<and>
      FMODE (CCR s') = Some MemoryMapped"
    by auto
next
  have "DefaultOperatingMode ready_board \<noteq> Quad" by (simp add: ready_board_def)
  with init_enables_QPI_once [of ready_board idle_regs]
  obtain s' where "init ready_board idle_regs = Some (Inr s')"
    "transactions (issued idle_regs s') =
           [\<lparr>FMODE = Some MemoryMapped, DMODE = Some (DefaultOperatingMode ready_board), DCYC = 0,
              ADMODE = Some (DefaultOperatingMode ready_board), ADSIZE = Some ThreeBytes,
              IMODE = Some (DefaultOperatingMode ready_board), INSTRUCTION = Some ReadData\<rparr>]"
    "FMODE (CCR s') = Some MemoryMapped"
    by blast
  then show "\<exists>s'. init ready_board idle_regs = Some (Inr s') \<and>
      map INSTRUCTION (transactions (issued idle_regs s')) = [Some ReadData] \<and>
      FMODE (CCR s') = Some MemoryMapped"
    by simp
qed

text \<open>
  C7. A transaction in a functional mode other than \<open>MemoryMapped\<close> returns only after
  reading the controller's BUSY flag clear: every earlier read of the flag during the call
  found it set, the read that found it clear is the call's last access, and (for a buffer
  that holds \<open>dataLength\<close> bytes) the call returns exactly when the flag clears at some
  read. A transaction in \<open>MemoryMapped\<close> mode always returns and never reads the flag.
\<close>

theorem busy_wait_unless_memory_mapped:
  "(fm \<noteq> MemoryMapped \<longrightarrow>
      (send_command_full b fm om c address dc data n s = Some (Inr (buf, s')) \<longrightarrow>
         (\<exists>k. BUSY_reads (issued s s') = replicate k True @ [False] \<and>
              SR_reads s' = SR_reads s + k + 1 \<and>
              (\<forall>i<k. SR_BUSY b (SR_reads s + i)) \<and> \<not> SR_BUSY b (SR_reads s + k) \<and>
              last (accesses s') = Get_BUSY False)) \<and>
      (unat n \<le> length (contents data) \<longrightarrow>
         ((\<exists>r. send_command_full b fm om c address dc data n s = Some r) \<longleftrightarrow>
          (\<exists>i. \<not> SR_BUSY b (SR_reads s + i))))) \<and>
   (send_command_full b MemoryMapped om c address dc data n s = Some (Inr (buf, s')) \<longrightarrow>
      BUSY_reads (issued s s') = [] \<and> SR_reads s' = SR_reads s) \<and>
   (\<exists>s'. send_command_full b MemoryMapped om c address dc data n s =
      Some (Inr (contents data, s')))"
proof (intro conjI impI)
  assume fm: "fm \<noteq> MemoryMapped"
    and r: "send_command_full b fm om c address dc data n s = Some (Inr (buf, s'))"
  from send_command_full_Inr [OF r] fm obtain k where
    k: "\<forall>i<k. SR_BUSY b (SR_reads s + i)" "\<not> SR_BUSY b (SR_reads s + k)"
    and s': "s' = completed b fm om c address dc data n k s"
    by blast
  from fm have "BUSY_reads (issued s s') = replicate k True @ [False]"
    and "SR_reads s' = SR_reads s + k + 1" and "last (accesses s') = Get_BUSY False"
    by (simp_all add: s' busy_accesses_def)
  with k show "\<exists>k. BUSY_reads (issued s s') = replicate k True @ [False] \<and>
              SR_reads s' = SR_reads s + k + 1 \<and>
              (\<forall>i<k. SR_BUSY b (SR_reads s + i)) \<and> \<not> SR_BUSY b (SR_reads s + k) \<and>
              last (accesses s') = Get_BUSY False"
    by blast
next
  assume fm: "fm \<noteq> MemoryMapped" and n: "unat n \<le> length (contents data)"
  show "(\<exists>r. send_command_full b fm om c address dc data n s = Some r) \<longleftrightarrow>
          (\<exists>i. \<not> SR_BUSY b (SR_reads s + i))"
  proof
    assume "\<exists>r. send_command_full b fm om c address dc data n s = Some r"
    then obtain r where r: "send_command_full b fm om c address dc data n s = Some r" ..
    with send_command_full_no_fault [OF n, of b fm om c address dc s] obtain buf s'
      where "send_command_full b fm om c address dc data n s = Some (Inr (buf, s'))"
      by (cases r) auto
    from send_command_full_Inr [OF this] fm show "\<exists>i. \<not> SR_BUSY b (SR_reads s + i)"
      by blast
  next
    assume "\<exists>i. \<not> SR_BUSY b (SR_reads s + i)"
    with send_command_full_returns [OF n, of fm b s om c address dc]
    show "\<exists>r. send_command_full b fm om c address dc data n s = Some r" by blast
  qed
next
  assume r: "send_command_full b MemoryMapped om c address dc data n s = Some (Inr (buf, s'))"
  from send_command_full_Inr [OF r] obtain k where
    s': "s' = completed b MemoryMapped om c address dc data n k s" by blast
  show "BUSY_reads (issued s s') = []" and "SR_reads s' = SR_reads s"
    by (simp_all add: s')
next
  show "\<exists>s'. send_command_full b MemoryMapped om c address dc data n s =
      Some (Inr (contents data, s'))"
    by (simp add: send_command_full_unfold)
qed

theorem busy_wait_unless_memory_mapped_witness:
  "(\<exists>buf s'. send_command_full busy_twice_board IndirectWrite Single WriteEnable 0 0 None 0
        idle_regs = Some (Inr (buf, s')) \<and>
      BUSY_reads (issued idle_regs s') = [True, True, False] \<and> SR_reads s' = 3 \<and>
      last (accesses s') = Get_BUSY False) \<and>
   send_command_full stuck_controller_board IndirectWrite Single WriteEnable 0 0 None 0 idle_regs
     = None \<and>
   (\<exists>s'. send_command_full stuck_controller_board MemoryMapped Single ReadData 0 0 None 0 idle_regs
        = Some (Inr ([], s')) \<and>
      BUSY_reads (issued idle_regs s') = [] \<and> SR_reads s' = 0)"
proof (intro conjI)
  let ?w = "send_command_full busy_twice_board IndirectWrite Single WriteEnable 0 0 None 0 idle_regs"
  have ev: "map_option (map_sum id (\<lambda>(buf, s'). (BUSY_reads (issued idle_regs s'), SR_reads s')))
      ?w = Some (Inr ([True, True, False], 3))"
    by code_simp
  then obtain buf s' where s': "?w = Some (Inr (buf, s'))"
    by (cases ?w) (auto simp: map_sum_def split: sum.splits)
  with ev have "BUSY_reads (issued idle_regs s') = [True, True, False]" "SR_reads s' = 3"
    by simp_all
  moreover from s' busy_wait_unless_memory_mapped [of IndirectWrite busy_twice_board Single
      WriteEnable 0 0 None 0 idle_regs buf s']
  have "last (accesses s') = Get_BUSY False" by auto
  ultimately show "\<exists>buf s'. ?w = Some (Inr (buf, s')) \<and>
      BUSY_reads (issued idle_regs s') = [True, True, False] \<and> SR_reads s' = 3 \<and>
      last (accesses s') = Get_BUSY False"
    using s' by blast
next
  show "send_command_full stuck_controller_board IndirectWrite Single WriteEnable 0 0 None 0
     idle_regs = None"
    using busy_wait_unless_memory_mapped [of IndirectWrite stuck_controller_board Single
      WriteEnable 0 0 None 0 idle_regs]
    by (auto simp: contents_def stuck_controller_board_def)
next
  let ?m = "send_command_full stuck_controller_board MemoryMapped Single ReadData 0 0 None 0
      idle_regs"
  from busy_wait_unless_memory_mapped [of MemoryMapped stuck_controller_board Single
      ReadData 0 0 None 0 idle_regs]
  obtain s' where s': "?m = Some (Inr ([], s'))" by (auto simp: contents_def)
  with busy_wait_unless_memory_mapped [of MemoryMapped stuck_controller_board Single
      ReadData 0 0 None 0 idle_regs "[]" s']
  have "BUSY_reads (issued idle_regs s') = []" "SR_reads s' = 0"
    by (simp_all add: idle_regs_def)
  with s' show "\<exists>s'. ?m = Some (Inr ([], s')) \<and>
      BUSY_reads (issued idle_regs s') = [] \<and> SR_reads s' = 0"
    by blast
qed

text \<open>
  C8, as the code has it. \<open>send_command_full\<close> takes the address as a number and reads 0
  as "no address": it enables the address phase (width \<open>operatingMode\<close>, size
  \<open>ThreeBytes\<close>) exactly when the address is not 0 or the functional mode is
  \<open>MemoryMapped\<close>, and writes the address register exactly when the address is not 0.
\<close>

theorem address_phase:
  "send_command_full b fm om c address dc data n s = Some (Inr (buf, s')) \<Longrightarrow>
     ADMODE (CCR s') = (if address \<noteq> 0 \<or> fm = MemoryMapped then Some om else None) \<and>
     ADSIZE (CCR s') = (if address \<noteq> 0 \<or> fm = MemoryMapped then Some ThreeBytes else None) \<and>
     AR_writes (issued s s') = (if address \<noteq> 0 then [address] else []) \<and>
     AR s' = (if address \<noteq> 0 then address else AR s)"
proof -
  assume "send_command_full b fm om c address dc data n s = Some (Inr (buf, s'))"
  from send_command_full_Inr [OF this] obtain k where
    "s' = completed b fm om c address dc data n k s" by blast
  then show ?thesis by (simp add: built_ccr_def)
qed

theorem address_phase_witness:
  "\<exists>buf s'.
     send_command_full ready_board IndirectWrite Single PageProgram 256 0 (Some [1, 2, 3]) 3
       idle_regs = Some (Inr (buf, s')) \<and>
     ADMODE (CCR s') = Some Single \<and> ADSIZE (CCR s') = Some ThreeBytes \<and>
     AR_writes (issued idle_regs s') = [256] \<and> AR s' = 256"
proof -
  have "\<exists>buf s'. send_command_full ready_board IndirectWrite Single PageProgram 256 0
       (Some [1, 2, 3]) 3 idle_regs = Some (Inr (buf, s'))"
    by (intro send_command_full_returns) (simp_all add: contents_def ready_board_def)
  then obtain buf s' where 1: "send_command_full ready_board IndirectWrite Single
    PageProgram 256 0 (Some [1, 2, 3]) 3 idle_regs = Some (Inr (buf, s'))" by auto
  from address_phase [OF 1] 1 show ?thesis by auto
qed

text \<open>
  C8 as stated fails for a supplied address of 0: programming one byte at flash offset 0
  enables no address phase and does not write the address register.
\<close>

theorem address_zero_not_written:
  "map_option (map_sum id (accesses \<circ> snd))
     (send_command_full ready_board IndirectWrite Single PageProgram 0 0 (Some [0xAB]) 1
        idle_regs) =
   Some (Inr [Set_DLR 0,
     Set_CCR \<lparr>FMODE = Some IndirectWrite, DMODE = Some Single, DCYC = 0, ADMODE = None,
       ADSIZE = None, IMODE = Some Single, INSTRUCTION = Some PageProgram\<rparr>,
     Set_DR 0xAB, Get_BUSY False])"
  by code_simp

text \<open>
  C9 as stated fails: the status register object is a \<open>Register16\<close>, so one polling
  step programs a data length of 2 bytes (\<open>DLR = 1\<close>) and reads the data register twice.
\<close>

theorem status_poll_reads_two_bytes:
  "map_option (map_sum id accesses) (wait ready_board idle_regs) =
   Some (Inr [Set_DLR 1,
     Set_CCR \<lparr>FMODE = Some IndirectRead, DMODE = Some Single, DCYC = 0, ADMODE = None,
       ADSIZE = None, IMODE = Some Single, INSTRUCTION = Some ReadStatusRegister\<rparr>,
     Get_DR 0, Get_DR 0, Get_BUSY False])"
  by code_simp

text \<open>
  C9, as the code has it. When \<open>wait\<close> returns after \<open>n + 1\<close> polling steps, each step was
  one indirect-read \<open>ReadStatusRegister\<close> transaction with a data payload of 2 bytes: the
  command register was written \<open>n + 1\<close> times, each time with that transaction; the
  data-length register \<open>n + 1\<close> times, each time with 1 (that is, 2 bytes); and
  \<open>2 * (n + 1)\<close> bytes were read from the data register. Readiness was decided by bit 0 of
  the first byte of each step: set in the first \<open>n\<close> steps, clear in the last.
\<close>

theorem status_poll:
  "wait b s = Some r \<Longrightarrow>
     \<exists>n s'. r = Inr s' \<and>
       transactions (issued s s') =
         replicate (n + 1)
           \<lparr>FMODE = Some IndirectRead, DMODE = Some (DefaultOperatingMode b), DCYC = 0,
            ADMODE = None, ADSIZE = None, IMODE = Some (DefaultOperatingMode b),
            INSTRUCTION = Some ReadStatusRegister\<rparr> \<and>
       DLR_writes (issued s s') = replicate (n + 1) (sizeof_statusRegister - 1) \<and>
       sizeof_statusRegister = 2 \<and>
       DR_values (issued s s') = map (DR_in b) [DR_reads s..<DR_reads s + 2 * (n + 1)] \<and>
       (\<forall>k<n. bit (DR_in b (DR_reads s + 2 * k)) 0) \<and>
       \<not> bit (DR_in b (DR_reads s + 2 * n)) 0"
proof -
  assume "wait b s = Some r"
  from wait_Some [OF this] obtain n s' where r: "r = Inr s'" and w: "waited b s n s'" by blast
  from w have "transactions (issued s s') = replicate (n + 1) (status_ccr (DefaultOperatingMode b))"
    "DLR_writes (issued s s') = replicate (n + 1) 1"
    "DR_values (issued s s') = map (DR_in b) [DR_reads s..<DR_reads s + 2 * (n + 1)]"
    "\<forall>k<n. bit (DR_in b (DR_reads s + 2 * k)) 0"
    "\<not> bit (DR_in b (DR_reads s + 2 * n)) 0"
    unfolding waited_def by (simp_all add: list_all_iff)
  with r show ?thesis
    by (intro exI [of _ n] exI [of _ s']) (simp add: status_ccr_def sizeof_statusRegister_def)
qed

theorem status_poll_witness:
  "\<exists>s'. wait busy_chip_board idle_regs = Some (Inr s') \<and>
     map INSTRUCTION (transactions (issued idle_regs s')) =
       [Some ReadStatusRegister, Some ReadStatusRegister, Some ReadStatusRegister] \<and>
     DLR_writes (issued idle_regs s') = [1, 1, 1] \<and>
     DR_values (issued idle_regs s') = [1, 1, 1, 1, 0, 0]"
proof -
  let ?w = "wait busy_chip_board idle_regs"
  have ev: "map_option (map_sum id (\<lambda>s'. (map INSTRUCTION (transactions (issued idle_regs s')),
        DLR_writes (issued idle_regs s'), DR_values (issued idle_regs s')))) ?w =
      Some (Inr ([Some ReadStatusRegister, Some ReadStatusRegister, Some ReadStatusRegister],
        [1, 1, 1], [1, 1, 1, 1, 0, 0]))"
    by code_simp
  then obtain r where r: "?w = Some r" by auto
  from status_poll [OF r] obtain s' where "r = Inr s'" by blast
  with r ev show ?thesis by simp
qed

text \<open>
  C10. Every transaction programs the data-length register with \<open>dataLength - 1\<close> when
  \<open>dataLength > 0\<close> and with 0 when \<open>dataLength = 0\<close>: it is the one write to that
  register during the call and the value the register holds on return. So the lengths 0
  and 1 program the same value, 0.
\<close>

theorem data_length_register:
  "(send_command_full b fm om c address dc data dataLength s = Some (Inr (buf, s')) \<longrightarrow>
      DLR s' = (if dataLength > 0 then dataLength - 1 else 0) \<and>
      DLR_writes (issued s s') = [if dataLength > 0 then dataLength - 1 else 0]) \<and>
   (send_command_full b fm om c address dc data 0 s = Some (Inr (buf0, s0)) \<and>
    send_command_full b fm om c address dc data 1 s = Some (Inr (buf1, s1)) \<longrightarrow>
      DLR s0 = 0 \<and> DLR s1 = 0 \<and> DLR_writes (issued s s0) = DLR_writes (issued s s1))"
proof -
  have *: "DLR s' = (if n > 0 then n - 1 else 0) \<and>
      DLR_writes (issued s s') = [if n > 0 then n - 1 else 0]"
    if "send_command_full b fm om c address dc data n s = Some (Inr (buf, s'))"
    for n buf s'
  proof -
    from send_command_full_Inr [OF that] obtain k where
      "s' = completed b fm om c address dc data n k s" by blast
    then show ?thesis by simp
  qed
  show ?thesis
  proof (intro conjI impI)
    assume "send_command_full b fm om c address dc data dataLength s = Some (Inr (buf, s'))"
    from * [OF this] show "DLR s' = (if dataLength > 0 then dataLength - 1 else 0)"
      and "DLR_writes (issued s s') = [if dataLength > 0 then dataLength - 1 else 0]"
      by blast+
  next
    assume a: "send_command_full b fm om c address dc data 0 s = Some (Inr (buf0, s0)) \<and>
      send_command_full b fm om c address dc data 1 s = Some (Inr (buf1, s1))"
    from a * [of 0 buf0 s0] * [of 1 buf1 s1]
    show "DLR s0 = 0" and "DLR s1 = 0" and "DLR_writes (issued s s0) = DLR_writes (issued s s1)"
      by simp_all
  qed
qed

theorem data_length_register_witness:
  "\<exists>buf s' buf0 s0 buf1 s1.
     send_command_full ready_board IndirectWrite Single PageProgram 256 0 (Some [1, 2, 3]) 3
       idle_regs = Some (Inr (buf, s')) \<and>
     send_command_full ready_board IndirectWrite Single PageProgram 256 0 (Some [1, 2, 3]) 0
       idle_regs = Some (Inr (buf0, s0)) \<and>
     send_command_full ready_board IndirectWrite Single PageProgram 256 0 (Some [1, 2, 3]) 1
       idle_regs = Some (Inr (buf1, s1)) \<and>
     DLR s' = 2 \<and> DLR_writes (issued idle_regs s') = [2] \<and> DLR s0 = 0 \<and> DLR s1 = 0"
proof -
  have r: "\<exists>buf s'. send_command_full ready_board IndirectWrite Single PageProgram 256 0
       (Some [1, 2, 3]) n idle_regs = Some (Inr (buf, s'))" if "unat n \<le> 3" for n
    using that by (intro send_command_full_returns) (simp_all add: contents_def ready_board_def)
  from r [of 3] obtain buf s' where 1: "send_command_full ready_board IndirectWrite Single
    PageProgram 256 0 (Some [1, 2, 3]) 3 idle_regs = Some (Inr (buf, s'))" by auto
  from r [of 0] obtain buf0 s0 where 2: "send_command_full ready_board IndirectWrite Single
    PageProgram 256 0 (Some [1, 2, 3]) 0 idle_regs = Some (Inr (buf0, s0))" by auto
  from r [of 1] obtain buf1 s1 where 3: "send_command_full ready_board IndirectWrite Single
    PageProgram 256 0 (Some [1, 2, 3]) 1 idle_regs = Some (Inr (buf1, s1))" by auto
  from 1 2 3
    data_length_register [of ready_board IndirectWrite Single PageProgram 256 0 "Some [1, 2, 3]"
      3 idle_regs buf s' buf0 s0 buf1 s1]
  show ?thesis by auto
qed

end
